theory Spec2Isabelle
  imports Main "HOL-Library.AList"
begin

section \<open>Pairwise alignment: the \<open>Aligner\<close> class of \<open>alignment/aligner.py\<close>\<close>

text \<open>
  The class fills a Needleman-Wunsch (global) or Smith-Waterman (local) score matrix and
  recovers alignments from it by re-testing, at every cell, which neighbour reproduces
  the stored score.

  Conventions of the embedding.
  \<^item> Scores are numpy floats in the source: \<open>match\<close>, \<open>gap\<close> and \<open>mismatch\<close> are
    stored as \<open>np.float32\<close>, the matrix and every sum are \<open>float64\<close>. They are modelled
    as exact integers, and rounding is not modelled. The model is the code on
    integer-valued scalars of magnitude at most \<open>2^24\<close> (which \<open>float32\<close> holds exactly)
    and as long as every sum and difference stays below \<open>2^53\<close> in magnitude (where
    \<open>float64\<close> addition, subtraction, comparison and \<open>max\<close> of integers are exact).
    Outside that range the code rounds and the model does not; \<open>exact_scores\<close> below
    names a range inside it.
  \<^item> Sequences are ASCII strings; \<open>str.upper\<close> and \<open>str.lower\<close> are modelled on
    the ASCII letters.
  \<^item> Every Python exception is a value \<open>Inl e\<close>; a \<open>while\<close> loop that does not
    return is the value \<open>None\<close>.
  \<^item> Printing has no effect on the state; what \<open>run\<close> prints is the value it
    returns in the model.
\<close>

subsection \<open>Errors, indexing, tables\<close>

datatype error = KeyError | IndexError | ValueError | UnboundLocalError | FileNotFoundError

text \<open>Python and numpy indexing along one axis of length \<open>n\<close>: a negative index counts
  from the end, anything still outside \<open>0..n-1\<close> raises.\<close>

definition norm_index :: "nat \<Rightarrow> int \<Rightarrow> nat option" where
  "norm_index n k =
     (if 0 \<le> k then (if k < int n then Some (nat k) else None)
      else (if 0 \<le> k + int n then Some (nat (k + int n)) else None))"

definition py_index :: "'a list \<Rightarrow> int \<Rightarrow> error + 'a" where
  "py_index xs k = (case norm_index (length xs) k of
                      None \<Rightarrow> Inl IndexError
                    | Some p \<Rightarrow> Inr (xs ! p))"

text \<open>The score matrix is a two-dimensional numpy array, here the list of its rows.
  \<open>shape\<close> is \<open>matrix.shape\<close>, \<open>mat_get m (i, j)\<close> is \<open>matrix[(i, j)]\<close> and
  \<open>mat_set m (i, j) v\<close> is the assignment \<open>matrix[(i, j)] = v\<close>.\<close>

type_synonym mat = "int list list"

definition zeros :: "nat \<Rightarrow> nat \<Rightarrow> mat" where
  "zeros r c = replicate r (replicate c 0)"

definition shape :: "mat \<Rightarrow> nat \<times> nat" where
  "shape m = (length m, (case m of [] \<Rightarrow> 0 | row # _ \<Rightarrow> length row))"

definition mat_get :: "mat \<Rightarrow> int \<times> int \<Rightarrow> error + int" where
  "mat_get m p = (case py_index m (fst p) of
                    Inl e \<Rightarrow> Inl e
                  | Inr row \<Rightarrow> py_index row (snd p))"

definition mat_set :: "mat \<Rightarrow> int \<times> int \<Rightarrow> int \<Rightarrow> error + mat" where
  "mat_set m p v =
     (case norm_index (length m) (fst p) of
        None \<Rightarrow> Inl IndexError
      | Some r \<Rightarrow>
          (case norm_index (length (m ! r)) (snd p) of
             None \<Rightarrow> Inl IndexError
           | Some c \<Rightarrow> Inr (m[r := (m ! r)[c := v]])))"

text \<open>The substitution table is a pandas \<open>DataFrame\<close>; \<open>loc t (a, b)\<close> is
  \<open>t.loc[(a, b)]\<close>, row label \<open>a\<close>, column label \<open>b\<close>, and raises \<open>KeyError\<close> when
  a label is absent.\<close>

type_synonym frame = "char \<times> char \<Rightarrow> int option"

definition loc :: "frame \<Rightarrow> char \<times> char \<Rightarrow> error + int" where
  "loc t k = (case t k of None \<Rightarrow> Inl KeyError | Some v \<Rightarrow> Inr v)"

text \<open>The table built when no name is given: zero on \<open>set (seq1 + seq2 + '-')\<close>.\<close>

definition zero_frame :: "string \<Rightarrow> frame" where
  "zero_frame s = (\<lambda>(a, b). if a \<in> set s \<and> b \<in> set s then Some 0 else None)"

definition upper_char :: "char \<Rightarrow> char" where
  "upper_char c = (let n = (of_char c :: nat)
                   in if 97 \<le> n \<and> n \<le> 122 then char_of (n - 32) else c)"

definition lower_char :: "char \<Rightarrow> char" where
  "lower_char c = (let n = (of_char c :: nat)
                   in if 65 \<le> n \<and> n \<le> 90 then char_of (n + 32) else c)"

definition upper :: "string \<Rightarrow> string" where
  "upper s = map upper_char s"

definition lower :: "string \<Rightarrow> string" where
  "lower s = map lower_char s"

subsection \<open>The aligner object\<close>

record aligner =
  seq1 :: string
  seq2 :: string
  match :: int
  gap :: int
  mismatch :: int
  local :: bool
  weights :: frame
  matrix :: mat

text \<open>\<open>set_weights\<close>. The argument is \<open>False\<close> (here \<open>None\<close>) or a name; the empty
  name is falsy as well. \<open>read_csv\<close> stands for the file system: what
  \<open>pd.read_csv\<close> returns for a path. A name that is neither \<open>pam\<close> nor
  \<open>blosum\<close> leaves the local variable \<open>filename\<close> unbound, and reading it raises
  before \<open>pd.read_csv\<close> is called.\<close>

definition set_weights ::
  "(string \<Rightarrow> error + frame) \<Rightarrow> string \<Rightarrow> string \<Rightarrow> string option \<Rightarrow> error + frame" where
  "set_weights read_csv s1 s2 w =
     (case w of
        None \<Rightarrow> Inr (zero_frame (s1 @ s2 @ ''-''))
      | Some name \<Rightarrow>
          if name \<noteq> [] then
            (if lower name = ''pam'' then read_csv ''alignment/PAM250.txt''
             else if lower name = ''blosum'' then read_csv ''alignment/BLOSUM62.txt''
             else Inl UnboundLocalError)
          else Inr (zero_frame (s1 @ s2 @ ''-'')))"

definition check_non_negativity :: "aligner \<Rightarrow> int \<Rightarrow> int" where
  "check_non_negativity a result = (if local a then max 0 result else result)"

text \<open>\<open>init_matrix\<close>. \<open>init_axis\<close> is the inner loop over \<open>range(axis)\<close> for one axis:
  \<open>i\<close> is the axis number (\<open>False\<close> for axis 0, the first column; \<open>True\<close> for axis 1,
  the first row), \<open>s\<close> is \<open>seq[i]\<close>, the state is the matrix and \<open>counter\<close>.\<close>

fun init_axis ::
  "frame \<Rightarrow> int \<Rightarrow> bool \<Rightarrow> string \<Rightarrow> nat list \<Rightarrow> mat \<times> int \<Rightarrow> error + mat \<times> int" where
  "init_axis t g i s [] st = Inr st"
| "init_axis t g i s (ax # axs) (m, counter) =
     (case py_index s (int ax) of
        Inl e \<Rightarrow> Inl e
      | Inr symb \<Rightarrow>
          (case loc t (CHR ''-'', symb) of
             Inl e \<Rightarrow> Inl e
           | Inr w \<Rightarrow>
               (case mat_set m (if i then (0, int ax) else (int ax, 0)) (counter + w) of
                  Inl e \<Rightarrow> Inl e
                | Inr m' \<Rightarrow> init_axis t g i s axs (m', counter + (g + w)))))"

definition init_matrix :: "aligner \<Rightarrow> error + mat" where
  "init_matrix a =
     (let m = zeros (length (seq1 a) + 1) (length (seq2 a) + 1)
      in if local a then Inr m
         else
           (case init_axis (weights a) (gap a) False (CHR ''-'' # seq1 a)
                   [0..<fst (shape m)] (m, 0) of
              Inl e \<Rightarrow> Inl e
            | Inr (m1, _) \<Rightarrow>
                (case init_axis (weights a) (gap a) True (CHR ''-'' # seq2 a)
                        [0..<snd (shape m1)] (m1, 0) of
                   Inl e \<Rightarrow> Inl e
                 | Inr (m2, _) \<Rightarrow> Inr m2)))"

text \<open>The constructor \<open>__init__\<close>, with the source's argument order. The source stores
  \<open>np.float32(match)\<close>, \<open>np.float32(gap)\<close> and \<open>np.float32(mismatch)\<close>; the model keeps
  the integers it is given, which is the same value for a magnitude up to \<open>2^24\<close>.\<close>

definition init ::
  "(string \<Rightarrow> error + frame) \<Rightarrow> string \<Rightarrow> string \<Rightarrow> int \<Rightarrow> int \<Rightarrow> int \<Rightarrow>
     string option \<Rightarrow> bool \<Rightarrow> error + aligner" where
  "init read_csv s1 s2 ma ga mi w lo =
     (case set_weights read_csv (upper s1) (upper s2) w of
        Inl e \<Rightarrow> Inl e
      | Inr t \<Rightarrow>
          (let a = \<lparr>seq1 = upper s1, seq2 = upper s2, match = ma, gap = ga,
                    mismatch = mi, local = lo, weights = t, matrix = []\<rparr>
           in case init_matrix a of
                Inl e \<Rightarrow> Inl e
              | Inr m \<Rightarrow> Inr (a\<lparr>matrix := m\<rparr>)))"

subsection \<open>Filling the matrix\<close>

definition get_neighbours :: "int \<Rightarrow> int \<Rightarrow> (int \<times> int) list" where
  "get_neighbours i j = [(i - 1, j - 1), (i, j - 1), (i - 1, j)]"

text \<open>\<open>cell\<close>. \<open>cell_loop\<close> is its loop over \<open>zip(idx, weights)\<close>, with
  \<open>available\<close> as accumulator; \<open>c1\<close>, \<open>c2\<close> are the two symbols read first. The two
  additions are \<open>float64\<close> additions in the source and exact integer additions here:
  the same value while the sums stay below \<open>2^53\<close> in magnitude.\<close>

fun cell_loop ::
  "aligner \<Rightarrow> int \<Rightarrow> int \<Rightarrow> char \<Rightarrow> char \<Rightarrow> ((int \<times> int) \<times> (char \<times> char)) list \<Rightarrow>
     int list \<Rightarrow> error + int list" where
  "cell_loop a i j c1 c2 [] available = Inr available"
| "cell_loop a i j c1 c2 ((index, weight) # rest) available =
     (case loc (weights a) weight of
        Inl e \<Rightarrow> Inl e
      | Inr current_weight \<Rightarrow>
          (case mat_get (matrix a) index of
             Inl e \<Rightarrow> Inl e
           | Inr current_cell \<Rightarrow>
               cell_loop a i j c1 c2 rest
                 (available @
                    [(if i - 1 = fst index \<and> j - 1 = snd index
                      then (if c1 = c2 then current_cell + match a
                            else current_cell + mismatch a)
                      else current_cell + gap a) + current_weight])))"

definition cell :: "aligner \<Rightarrow> int \<Rightarrow> int \<Rightarrow> error + int" where
  "cell a i j =
     (case py_index (seq1 a) (i - 1) of
        Inl e \<Rightarrow> Inl e
      | Inr c1 \<Rightarrow>
          (case py_index (seq2 a) (j - 1) of
             Inl e \<Rightarrow> Inl e
           | Inr c2 \<Rightarrow>
               (case cell_loop a i j c1 c2
                       (zip (get_neighbours i j)
                            [(c1, c2), (c1, CHR ''-''), (CHR ''-'', c2)]) [] of
                  Inl e \<Rightarrow> Inl e
                | Inr available \<Rightarrow>
                    if available = [] then Inl ValueError
                    else Inr (Max (set available)))))"

text \<open>\<open>align\<close>: \<open>align_row\<close> is the inner loop over \<open>j\<close>, \<open>align_rows\<close> the outer
  loop over \<open>i\<close>.\<close>

fun align_row :: "aligner \<Rightarrow> nat \<Rightarrow> nat list \<Rightarrow> error + aligner" where
  "align_row a i [] = Inr a"
| "align_row a i (j # js) =
     (case cell a (int i) (int j) of
        Inl e \<Rightarrow> Inl e
      | Inr r \<Rightarrow>
          (case mat_set (matrix a) (int i, int j) (check_non_negativity a r) of
             Inl e \<Rightarrow> Inl e
           | Inr m \<Rightarrow> align_row (a\<lparr>matrix := m\<rparr>) i js))"

fun align_rows :: "aligner \<Rightarrow> nat list \<Rightarrow> error + aligner" where
  "align_rows a [] = Inr a"
| "align_rows a (i # is) =
     (case align_row a i [1..<length (seq2 a) + 1] of
        Inl e \<Rightarrow> Inl e
      | Inr a' \<Rightarrow> align_rows a' is)"

definition align :: "aligner \<Rightarrow> error + aligner" where
  "align a = align_rows a [1..<length (seq1 a) + 1]"

subsection \<open>Traceback\<close>

text \<open>The body of \<open>for index in idx\<close> is the same text in both traceback methods.
  \<open>neighbour_loop\<close> is that loop: it returns \<open>Some (index, x, y)\<close> when it leaves by
  \<open>break\<close>, having appended \<open>x\<close> and \<open>y\<close> to the two alignment lists and set
  \<open>current\<close> to \<open>index\<close>, and \<open>None\<close> when it runs to the end of \<open>idx\<close>.\<close>

fun neighbour_loop ::
  "aligner \<Rightarrow> int \<times> int \<Rightarrow> int \<Rightarrow> (int \<times> int) list \<Rightarrow>
     error + ((int \<times> int) \<times> char \<times> char) option" where
  "neighbour_loop a current val [] = Inr None"
| "neighbour_loop a current val (index # rest) =
     (case py_index (seq1 a) (fst current - 1) of
        Inl e \<Rightarrow> Inl e
      | Inr c1 \<Rightarrow>
     (case py_index (seq2 a) (snd current - 1) of
        Inl e \<Rightarrow> Inl e
      | Inr c2 \<Rightarrow>
     (case mat_get (matrix a) index of
        Inl e \<Rightarrow> Inl e
      | Inr backtrace \<Rightarrow>
          if (fst index + 1, snd index + 1) = current then
            (case loc (weights a) (c1, c2) of
               Inl e \<Rightarrow> Inl e
             | Inr weight \<Rightarrow>
                 if (val - backtrace = match a + weight \<and> c1 = c2)
                    \<or> val - backtrace = mismatch a + weight
                 then Inr (Some (index, c1, c2))
                 else neighbour_loop a current val rest)
          else if fst current - fst index \<noteq> 0 then
            (case loc (weights a) (c1, CHR ''-'') of
               Inl e \<Rightarrow> Inl e
             | Inr weight \<Rightarrow>
                 if val - backtrace = gap a + weight
                 then Inr (Some (index, c1, CHR ''-''))
                 else neighbour_loop a current val rest)
          else
            (case loc (weights a) (CHR ''-'', c2) of
               Inl e \<Rightarrow> Inl e
             | Inr weight \<Rightarrow>
                 if val - backtrace = gap a + weight
                 then Inr (Some (index, CHR ''-'', c2))
                 else neighbour_loop a current val rest))))"

text \<open>The neighbours kept by \<open>[i for i in idx if i[0] >= 0 and i[1] >= 0]\<close>.\<close>

definition kept_neighbours :: "int \<times> int \<Rightarrow> (int \<times> int) list" where
  "kept_neighbours current =
     filter (\<lambda>i. fst i \<ge> 0 \<and> snd i \<ge> 0) (get_neighbours (fst current) (snd current))"

text \<open>What one pass through the body of the \<open>while\<close> loop does before it goes round
  again, the same in both methods: read \<open>value = matrix[current]\<close>, then run the loop
  over the kept neighbours.\<close>

definition trace_step ::
  "aligner \<Rightarrow> int \<times> int \<Rightarrow> error + int \<times> ((int \<times> int) \<times> char \<times> char) option" where
  "trace_step a current =
     (case mat_get (matrix a) current of
        Inl e \<Rightarrow> Inl e
      | Inr val \<Rightarrow>
          (case neighbour_loop a current val (kept_neighbours current) of
             Inl e \<Rightarrow> Inl e
           | Inr r \<Rightarrow> Inr (val, r)))"

text \<open>The \<open>while\<close> loop of \<open>select_global_alignment\<close>; the state is \<open>current\<close> and the
  two lists of \<open>self.alignment\<close>. When no neighbour is taken the state is unchanged and
  the loop goes round again.\<close>

partial_function (option) global_walk ::
  "aligner \<Rightarrow> (int \<times> int) \<times> string \<times> string \<Rightarrow>
     (error + (int \<times> int) \<times> string \<times> string) option" where
  "global_walk a st =
     (case st of (current, al0, al1) \<Rightarrow>
        if fst current \<ge> 1 \<or> snd current \<ge> 1 then
          (case trace_step a current of
             Inl e \<Rightarrow> Some (Inl e)
           | Inr (val, None) \<Rightarrow> global_walk a (current, al0, al1)
           | Inr (val, Some (index, x, y)) \<Rightarrow>
               global_walk a (index, al0 @ [x], al1 @ [y]))
        else Some (Inr st))"

declare global_walk.simps [code]

definition corner :: "mat \<Rightarrow> int \<times> int" where
  "corner m = (int (fst (shape m)) - 1, int (snd (shape m)) - 1)"

text \<open>\<open>self.alignment\<close> after a traceback method: a dictionary from the start coordinate
  to the pair of lists, kept in insertion order; \<open>AList.update\<close> is the assignment
  \<open>self.alignment[k] = v\<close>.\<close>

type_synonym alignment = "((int \<times> int) \<times> string \<times> string) list"

definition select_global_alignment :: "aligner \<Rightarrow> (error + alignment) option" where
  "select_global_alignment a =
     (case global_walk a (corner (matrix a), [], []) of
        None \<Rightarrow> None
      | Some (Inl e) \<Rightarrow> Some (Inl e)
      | Some (Inr (current, al0, al1)) \<Rightarrow>
          Some (Inr [(corner (matrix a), (al0, al1))]))"

text \<open>\<open>select_local_alignment\<close>. \<open>matrix_max\<close> is \<open>matrix.max()\<close>, \<open>indices\<close> the
  coordinates \<open>np.where\<close> returns, in row-major order. The state of the \<open>while\<close> loop
  is \<open>value\<close>, \<open>current\<close> and the two lists; \<open>value\<close> is read again from the
  matrix only inside the body, after the loop test.\<close>

definition matrix_max :: "mat \<Rightarrow> int" where
  "matrix_max m = Max (set (concat m))"

definition indices :: "mat \<Rightarrow> (int \<times> int) list" where
  "indices m =
     concat (map (\<lambda>x. map (\<lambda>y. (int x, int y))
                        (filter (\<lambda>y. m ! x ! y = matrix_max m) [0..<length (m ! x)]))
                 [0..<length m])"

partial_function (option) local_walk ::
  "aligner \<Rightarrow> int \<times> (int \<times> int) \<times> string \<times> string \<Rightarrow>
     (error + int \<times> (int \<times> int) \<times> string \<times> string) option" where
  "local_walk a st =
     (case st of (val, current, al0, al1) \<Rightarrow>
        if val \<noteq> 0 then
          (case trace_step a current of
             Inl e \<Rightarrow> Some (Inl e)
           | Inr (val', None) \<Rightarrow> local_walk a (val', current, al0, al1)
           | Inr (val', Some (index, x, y)) \<Rightarrow>
               local_walk a (val', index, al0 @ [x], al1 @ [y]))
        else Some (Inr st))"

declare local_walk.simps [code]

fun local_starts ::
  "aligner \<Rightarrow> (int \<times> int) list \<Rightarrow> alignment \<Rightarrow> (error + alignment) option" where
  "local_starts a [] d = Some (Inr d)"
| "local_starts a (start # rest) d =
     (case mat_get (matrix a) start of
        Inl e \<Rightarrow> Some (Inl e)
      | Inr val \<Rightarrow>
          (case local_walk a (val, start, [], []) of
             None \<Rightarrow> None
           | Some (Inl e) \<Rightarrow> Some (Inl e)
           | Some (Inr (_, _, al0, al1)) \<Rightarrow>
               local_starts a rest (AList.update start (al0, al1) d)))"

definition select_local_alignment :: "aligner \<Rightarrow> (error + alignment) option" where
  "select_local_alignment a = local_starts a (indices (matrix a)) []"

subsection \<open>The entry point\<close>

text \<open>\<open>print_alignment\<close> prints, for every key, the two lists reversed.\<close>

definition print_alignment :: "alignment \<Rightarrow> alignment" where
  "print_alignment d = map (\<lambda>(c, x, y). (c, rev x, rev y)) d"

text \<open>\<open>filled\<close> is the object after the first two statements of \<open>run\<close>: construction,
  then \<open>align()\<close>.\<close>

definition filled ::
  "(string \<Rightarrow> error + frame) \<Rightarrow> string \<Rightarrow> string \<Rightarrow> int \<Rightarrow> int \<Rightarrow> int \<Rightarrow>
     string option \<Rightarrow> bool \<Rightarrow> error + aligner" where
  "filled read_csv s1 s2 ma ga mi w lo =
     (case init read_csv s1 s2 ma ga mi w lo of
        Inl e \<Rightarrow> Inl e
      | Inr a \<Rightarrow> align a)"

text \<open>\<open>run\<close>. Its arguments are the fields of the parsed command line, here in the
  order of the constructor: the two sequences, \<open>match\<close>, \<open>gap\<close>, \<open>mismatch\<close>,
  \<open>weights\<close>, then the \<open>alignment\<close> flag and the \<open>local\<close> flag. The result is what
  was printed: the matrix, and the alignment when it was asked for.\<close>

definition run ::
  "(string \<Rightarrow> error + frame) \<Rightarrow> string \<Rightarrow> string \<Rightarrow> int \<Rightarrow> int \<Rightarrow> int \<Rightarrow>
     string option \<Rightarrow> bool \<Rightarrow> bool \<Rightarrow> (error + mat \<times> alignment option) option" where
  "run read_csv s1 s2 ma ga mi w al lo =
     (case filled read_csv s1 s2 ma ga mi w lo of
        Inl e \<Rightarrow> Some (Inl e)
      | Inr a \<Rightarrow>
          if al then
            (case (if lo then select_local_alignment a else select_global_alignment a) of
               None \<Rightarrow> None
             | Some (Inl e) \<Rightarrow> Some (Inl e)
             | Some (Inr d) \<Rightarrow> Some (Inr (matrix a, Some (print_alignment d))))
          else Some (Inr (matrix a, None)))"

subsection \<open>The scores as the specification names them\<close>

text \<open>The specification writes the recurrence with \<open>score_pair\<close> and \<open>score_gap\<close>.
  Neither is a function of the source; they are defined here from the specification's
  words, to be compared with what \<open>cell\<close> computes. \<open>spec_cell\<close> is the maximum of
  the three candidates of the specification's fill step.\<close>

definition score_pair :: "aligner \<Rightarrow> char \<Rightarrow> char \<Rightarrow> error + int" where
  "score_pair a x y =
     (case loc (weights a) (x, y) of
        Inl e \<Rightarrow> Inl e
      | Inr w \<Rightarrow> Inr ((if x = y then match a else mismatch a) + w))"

definition score_gap :: "aligner \<Rightarrow> char \<Rightarrow> error + int" where
  "score_gap a x =
     (case loc (weights a) (x, CHR ''-'') of
        Inl e \<Rightarrow> Inl e
      | Inr w \<Rightarrow> Inr (gap a + w))"

definition spec_cell :: "aligner \<Rightarrow> nat \<Rightarrow> nat \<Rightarrow> error + int" where
  "spec_cell a i j =
     (case score_pair a (seq1 a ! (i - 1)) (seq2 a ! (j - 1)) of
        Inl e \<Rightarrow> Inl e
      | Inr sp \<Rightarrow>
     (case score_gap a (seq2 a ! (j - 1)) of
        Inl e \<Rightarrow> Inl e
      | Inr sl \<Rightarrow>
     (case score_gap a (seq1 a ! (i - 1)) of
        Inl e \<Rightarrow> Inl e
      | Inr su \<Rightarrow>
          Inr (max (matrix a ! (i - 1) ! (j - 1) + sp)
                 (max (matrix a ! i ! (j - 1) + sl) (matrix a ! (i - 1) ! j + su))))))"

subsection \<open>The equation a filled cell satisfies\<close>

text \<open>\<open>fill_equation a i j\<close> says that, in the matrix of \<open>a\<close>, the cell \<open>(i, j)\<close> holds
  what \<open>cell\<close> computes from its three neighbours as they are in that same matrix, passed
  through \<open>check_non_negativity\<close>. It is a statement about a matrix, used to say what
  \<open>align\<close> establishes, not a function of the source.\<close>

definition fill_equation :: "aligner \<Rightarrow> nat \<Rightarrow> nat \<Rightarrow> bool" where
  "fill_equation a i j \<longleftrightarrow>
     (\<exists>wd wl wu.
        weights a (seq1 a ! (i - 1), seq2 a ! (j - 1)) = Some wd \<and>
        weights a (seq1 a ! (i - 1), CHR ''-'') = Some wl \<and>
        weights a (CHR ''-'', seq2 a ! (j - 1)) = Some wu \<and>
        matrix a ! i ! j =
          check_non_negativity a
            (max (matrix a ! (i - 1) ! (j - 1) +
                    (if seq1 a ! (i - 1) = seq2 a ! (j - 1) then match a else mismatch a) + wd)
               (max (matrix a ! i ! (j - 1) + gap a + wl)
                    (matrix a ! (i - 1) ! j + gap a + wu))))"

subsection \<open>Objects built without a table\<close>

text \<open>\<open>plain_object a\<close> says that \<open>a\<close> carries the zero table over its own symbols and a
  matrix of the shape of its sequences, as the constructor leaves it when no table name
  is given and as \<open>align\<close> keeps it. It is used to state when a run returns.\<close>

definition plain_object :: "aligner \<Rightarrow> bool" where
  "plain_object a \<longleftrightarrow>
     weights a = zero_frame (seq1 a @ seq2 a @ ''-'') \<and>
     map length (matrix a) = replicate (length (seq1 a) + 1) (length (seq2 a) + 1)"

text \<open>\<open>plain_filled a\<close> adds what construction and \<open>align\<close> establish for such an
  object: every interior cell satisfies the fill equation; in local mode row 0 and
  column 0 hold 0, in global mode each border cell is its predecessor plus \<open>gap\<close>.\<close>

definition plain_filled :: "aligner \<Rightarrow> bool" where
  "plain_filled a \<longleftrightarrow>
     plain_object a \<and>
     (\<forall>i j. 1 \<le> i \<and> i \<le> length (seq1 a) \<and> 1 \<le> j \<and> j \<le> length (seq2 a) \<longrightarrow>
        fill_equation a i j) \<and>
     (if local a then
        (\<forall>r c. (r = 0 \<or> c = 0) \<and> r \<le> length (seq1 a) \<and> c \<le> length (seq2 a) \<longrightarrow>
           matrix a ! r ! c = 0)
      else
        (\<forall>k. 1 \<le> k \<and> k \<le> length (seq2 a) \<longrightarrow>
           matrix a ! 0 ! k = matrix a ! 0 ! (k - 1) + gap a) \<and>
        (\<forall>k. 1 \<le> k \<and> k \<le> length (seq1 a) \<longrightarrow>
           matrix a ! k ! 0 = matrix a ! (k - 1) ! 0 + gap a))"

subsection \<open>Scores the floats hold exactly\<close>

text \<open>\<open>exact_scores\<close> names inputs on which, without a table, the floats of the source
  hold every number the run computes: the three scalars are integers of magnitude at most
  \<open>2^24\<close>, and the two sequences have at most \<open>2^27\<close> symbols together. A cell
  \<open>(i, j)\<close> is then at most \<open>(i + j) * 2^24\<close> in magnitude (lemma \<open>plain_cells_bounded\<close>),
  at most \<open>2^51\<close> (lemma \<open>exact_cells_bounded\<close>), so every cell, candidate and difference
  stays below \<open>2^53\<close>. It is a condition on the input, used to state when a run
  returns; it is not a function of the source.\<close>

definition exact_scores :: "string \<Rightarrow> string \<Rightarrow> int \<Rightarrow> int \<Rightarrow> int \<Rightarrow> bool" where
  "exact_scores s1 s2 ma ga mi \<longleftrightarrow>
     \<bar>ma\<bar> \<le> 2 ^ 24 \<and> \<bar>ga\<bar> \<le> 2 ^ 24 \<and> \<bar>mi\<bar> \<le> 2 ^ 24 \<and>
     length s1 + length s2 \<le> 2 ^ 27"

subsection \<open>Inputs used as examples\<close>

text \<open>A file system without table files, and one whose \<open>alignment/PAM250.txt\<close> holds a
  symmetric table over \<open>A\<close>, \<open>C\<close> and the gap symbol in which a gap against \<open>C\<close>
  costs more than a gap against \<open>A\<close>.\<close>

definition no_csv :: "string \<Rightarrow> error + frame" where
  "no_csv path = Inl FileNotFoundError"

definition gap_frame :: frame where
  "gap_frame = map_of
     [((CHR ''A'', CHR ''A''), 0), ((CHR ''A'', CHR ''C''), - 10),
      ((CHR ''C'', CHR ''A''), - 10), ((CHR ''C'', CHR ''C''), 0),
      ((CHR ''A'', CHR ''-''), 0), ((CHR ''-'', CHR ''A''), 0),
      ((CHR ''C'', CHR ''-''), - 5), ((CHR ''-'', CHR ''C''), - 5),
      ((CHR ''-'', CHR ''-''), 0)]"

definition gap_csv :: "string \<Rightarrow> error + frame" where
  "gap_csv path =
     (if path = ''alignment/PAM250.txt'' then Inr gap_frame else Inl FileNotFoundError)"

text \<open>A file system whose \<open>alignment/BLOSUM62.txt\<close> scores the gap symbol against
  itself with 1, as the last entry of the published BLOSUM62 table does.\<close>

definition star_frame :: frame where
  "star_frame = map_of
     [((CHR ''A'', CHR ''A''), 4), ((CHR ''A'', CHR ''-''), - 4),
      ((CHR ''-'', CHR ''A''), - 4), ((CHR ''-'', CHR ''-''), 1)]"

definition star_csv :: "string \<Rightarrow> error + frame" where
  "star_csv path =
     (if path = ''alignment/BLOSUM62.txt'' then Inr star_frame else Inl FileNotFoundError)"

section \<open>Facts about the model\<close>

subsection \<open>Indexing\<close>

lemma norm_index_nat [simp]: "norm_index n (int k) = (if k < n then Some k else None)"
  by (simp add: norm_index_def)

lemma py_index_nat [simp]:
  "py_index xs (int k) = (if k < length xs then Inr (xs ! k) else Inl IndexError)"
  by (simp add: py_index_def)

lemma mat_get_nat:
  "mat_get m (int r, int c) =
     (if r < length m then (if c < length (m ! r) then Inr (m ! r ! c) else Inl IndexError)
      else Inl IndexError)"
  by (simp add: mat_get_def)

lemma mat_set_nat:
  "mat_set m (int r, int c) v =
     (if r < length m \<and> c < length (m ! r) then Inr (m[r := (m ! r)[c := v]])
      else Inl IndexError)"
  by (simp add: mat_set_def)

subsection \<open>A walk that takes no neighbour never returns\<close>

lemma stuck_walk_None:
  assumes step: "trace_step a c = Inr (v, None)" and pos: "fst c \<ge> 1 \<or> snd c \<ge> 1"
  shows "global_walk a (c, x, y) = None"
proof (rule ccontr)
  assume "global_walk a (c, x, y) \<noteq> None"
  then obtain r where r: "global_walk a (c, x, y) = Some r" by auto
  have "\<not> (a = a \<and> (c, x, y) = (c, x, y))"
  proof (rule global_walk.raw_induct
      [where P = "\<lambda>a' st r'. \<not> (a' = a \<and> st = (c, x, y))", OF _ r])
    fix f a' st r'
    assume IH: "\<And>a'' st' r''. f a'' st' = Some r'' \<Longrightarrow> \<not> (a'' = a \<and> st' = (c, x, y))"
      and body: "(case st of
            (current, al0, al1) \<Rightarrow>
              if 1 \<le> fst current \<or> 1 \<le> snd current
              then case trace_step a' current of
                     Inl e \<Rightarrow> Some (Inl e)
                   | Inr (val, None) \<Rightarrow> f a' (current, al0, al1)
                   | Inr (val, Some (index, x, y)) \<Rightarrow> f a' (index, al0 @ [x], al1 @ [y])
              else Some (Inr st)) = Some r'"
    show "\<not> (a' = a \<and> st = (c, x, y))"
    proof
      assume "a' = a \<and> st = (c, x, y)"
      with body step pos have "f a (c, x, y) = Some r'" by simp
      with IH show False by blast
    qed
  qed
  then show False by simp
qed

text \<open>The same for a local walk: a pass that reads a value other than 0 and takes no
  neighbour leaves \<open>value\<close> and \<open>current\<close> as they are.\<close>

lemma stuck_local_walk_None:
  assumes step: "trace_step a c = Inr (v, None)" and nz: "v \<noteq> 0"
  shows "local_walk a (v, c, x, y) = None"
proof (rule ccontr)
  assume "local_walk a (v, c, x, y) \<noteq> None"
  then obtain r where r: "local_walk a (v, c, x, y) = Some r" by auto
  have "\<not> (a = a \<and> (v, c, x, y) = (v, c, x, y))"
  proof (rule local_walk.raw_induct
      [where P = "\<lambda>a' st r'. \<not> (a' = a \<and> st = (v, c, x, y))", OF _ r])
    fix f and a' :: aligner and st :: "int \<times> (int \<times> int) \<times> string \<times> string" and r'
    assume IH: "\<And>a'' st' r''. f a'' st' = Some r'' \<Longrightarrow> \<not> (a'' = a \<and> st' = (v, c, x, y))"
      and body: "(case st of
            (val, current, al0, al1) \<Rightarrow>
              if val \<noteq> 0
              then case trace_step a' current of
                     Inl e \<Rightarrow> Some (Inl e)
                   | Inr (val', None) \<Rightarrow> f a' (val', current, al0, al1)
                   | Inr (val', Some (index, x, y)) \<Rightarrow>
                       f a' (val', index, al0 @ [x], al1 @ [y])
              else Some (Inr st)) = Some r'"
    show "\<not> (a' = a \<and> st = (v, c, x, y))"
    proof
      assume "a' = a \<and> st = (v, c, x, y)"
      with body step nz have "f a (v, c, x, y) = Some r'" by simp
      with IH show False by blast
    qed
  qed
  then show False by simp
qed

subsection \<open>What \<open>cell\<close> computes\<close>

text \<open>For an interior cell whose three neighbours and three table entries can be read,
  \<open>cell\<close> returns the maximum of: the diagonal neighbour plus \<open>match\<close> or \<open>mismatch\<close>
  plus the entry of the two symbols; the left neighbour \<open>(i, j-1)\<close> plus \<open>gap\<close> plus the
  entry \<open>(seq1[i-1], '-')\<close>; the upper neighbour \<open>(i-1, j)\<close> plus \<open>gap\<close> plus the
  entry \<open>('-', seq2[j-1])\<close>.\<close>

lemma cell_Suc:
  assumes "i' < length (seq1 a)" "j' < length (seq2 a)"
    and "mat_get (matrix a) (int i', int j') = Inr d"
    and "mat_get (matrix a) (int (Suc i'), int j') = Inr l"
    and "mat_get (matrix a) (int i', int (Suc j')) = Inr u"
    and "weights a (seq1 a ! i', seq2 a ! j') = Some wd"
    and "weights a (seq1 a ! i', CHR ''-'') = Some wl"
    and "weights a (CHR ''-'', seq2 a ! j') = Some wu"
  shows "cell a (int (Suc i')) (int (Suc j')) =
           Inr (max (d + (if seq1 a ! i' = seq2 a ! j' then match a else mismatch a) + wd)
                  (max (l + gap a + wl) (u + gap a + wu)))"
proof -
  have [simp]: "int (Suc i') - 1 = int i'" "int (Suc j') - 1 = int j'" by simp_all
  show ?thesis
    using assms
    by (simp add: cell_def get_neighbours_def loc_def max.assoc del: of_nat_Suc)
qed

lemma cell_candidates:
  assumes "1 \<le> i" "i \<le> length (seq1 a)" "1 \<le> j" "j \<le> length (seq2 a)"
    and "mat_get (matrix a) (int i - 1, int j - 1) = Inr d"
    and "mat_get (matrix a) (int i, int j - 1) = Inr l"
    and "mat_get (matrix a) (int i - 1, int j) = Inr u"
    and "weights a (seq1 a ! (i - 1), seq2 a ! (j - 1)) = Some wd"
    and "weights a (seq1 a ! (i - 1), CHR ''-'') = Some wl"
    and "weights a (CHR ''-'', seq2 a ! (j - 1)) = Some wu"
  shows "cell a (int i) (int j) =
           Inr (max (d + (if seq1 a ! (i - 1) = seq2 a ! (j - 1) then match a else mismatch a) + wd)
                  (max (l + gap a + wl) (u + gap a + wu)))"
proof -
  obtain i' j' where i: "i = Suc i'" and j: "j = Suc j'"
    using assms(1,3) by (cases i; cases j) auto
  have ii: "int (Suc i') - 1 = int i'" and jj: "int (Suc j') - 1 = int j'"
    by simp_all
  show ?thesis
    using assms(2,4-10) unfolding i j ii jj diff_Suc_1
    by (intro cell_Suc) (simp_all del: of_nat_Suc)
qed

section \<open>The claims settled by running the model\<close>

subsection \<open>The runs used below\<close>

text \<open>\<open>filled\<close> returns \<open>Inr\<close> on each of the inputs below; the object is then
  \<open>projr\<close> of the result.\<close>

lemma filled_obtain:
  assumes "\<not> isl r"
  obtains a where "r = Inr a" and "projr r = a"
  using assms by (cases r) auto

text \<open>Sequences \<open>A\<close> and \<open>C\<close>, default scalars, the table \<open>gap_frame\<close> loaded under the
  name \<open>pam\<close>, global mode.\<close>

lemma gapped_isr:
  "\<not> isl (filled gap_csv ''A'' ''C'' 1 (- 1) (- 1) (Some ''pam'') False)"
  by code_simp

lemma gapped_matrix:
  "map_sum id matrix (filled gap_csv ''A'' ''C'' 1 (- 1) (- 1) (Some ''pam'') False) =
     Inr [[0, - 6], [- 1, - 2]]"
  by code_simp

lemma gapped_spec_cell:
  "spec_cell (projr (filled gap_csv ''A'' ''C'' 1 (- 1) (- 1) (Some ''pam'') False)) 1 1 =
     Inr (- 7)"
  by code_simp

lemma gapped_step:
  "trace_step (projr (filled gap_csv ''A'' ''C'' 1 (- 1) (- 1) (Some ''pam'') False)) (1, 1) =
     Inr (- 2, None)"
  by code_simp

text \<open>Sequences \<open>A\<close> and \<open>A\<close>, \<open>match = -3\<close>, \<open>gap = -1\<close>, \<open>mismatch = -2\<close>, no table,
  global mode.\<close>

lemma twin_isr: "\<not> isl (filled no_csv ''A'' ''A'' (- 3) (- 1) (- 2) None False)"
  by code_simp

lemma twin_matrix:
  "map_sum id matrix (filled no_csv ''A'' ''A'' (- 3) (- 1) (- 2) None False) =
     Inr [[0, - 1], [- 1, - 2]]"
  by code_simp

lemma twin_step:
  "trace_step (projr (filled no_csv ''A'' ''A'' (- 3) (- 1) (- 2) None False)) (1, 1) =
     Inr (- 2, Some ((0, 0), CHR ''A'', CHR ''A''))"
  by code_simp

lemma twin_scores:
  "score_pair (projr (filled no_csv ''A'' ''A'' (- 3) (- 1) (- 2) None False))
       (CHR ''A'') (CHR ''A'') = Inr (- 3) \<and>
   score_gap (projr (filled no_csv ''A'' ''A'' (- 3) (- 1) (- 2) None False))
       (CHR ''A'') = Inr (- 1)"
  by code_simp

text \<open>Sequences empty and \<open>AC\<close>, default scalars, no table, global mode.\<close>

lemma empty_isr: "\<not> isl (filled no_csv [] ''AC'' 1 (- 1) (- 1) None False)"
  by code_simp

lemma empty_matrix:
  "map_sum id matrix (filled no_csv [] ''AC'' 1 (- 1) (- 1) None False) = Inr [[0, - 1, - 2]]"
  by code_simp

lemma empty_step:
  "trace_step (projr (filled no_csv [] ''AC'' 1 (- 1) (- 1) None False)) (0, 2) =
     Inl IndexError"
  by code_simp

text \<open>Sequences \<open>A\<close> and \<open>AA\<close>, \<open>match = 1\<close>, \<open>gap = 0\<close>, \<open>mismatch = -1\<close>, no table,
  local mode.\<close>

lemma free_isr: "\<not> isl (filled no_csv ''A'' ''AA'' 1 0 (- 1) None True)"
  by code_simp

lemma free_matrix:
  "map_sum id matrix (filled no_csv ''A'' ''AA'' 1 0 (- 1) None True) =
     Inr [[0, 0, 0], [0, 1, 1]]"
  by code_simp

lemma free_steps:
  "trace_step (projr (filled no_csv ''A'' ''AA'' 1 0 (- 1) None True)) (1, 1) =
     Inr (1, Some ((0, 0), CHR ''A'', CHR ''A''))"
  "trace_step (projr (filled no_csv ''A'' ''AA'' 1 0 (- 1) None True)) (0, 0) =
     Inr (0, None)"
  "trace_step (projr (filled no_csv ''A'' ''AA'' 1 0 (- 1) None True)) (1, 2) =
     Inr (1, Some ((0, 1), CHR ''A'', CHR ''A''))"
  "trace_step (projr (filled no_csv ''A'' ''AA'' 1 0 (- 1) None True)) (0, 1) =
     Inr (0, Some ((0, 0), CHR ''-'', CHR ''A''))"
  by code_simp+

lemma indices_free: "indices [[0, 0, 0], [0, 1, 1]] = [(1, 1), (1, 2)]"
  by code_simp

text \<open>Sequences \<open>AA\<close> and \<open>ACA\<close>, \<open>match = 2\<close>, \<open>gap = -1\<close>, \<open>mismatch = -1\<close>, the
  table \<open>gap_frame\<close> loaded under the name \<open>pam\<close>, local mode.\<close>

lemma looping_isr: "\<not> isl (filled gap_csv ''AA'' ''ACA'' 2 (- 1) (- 1) (Some ''pam'') True)"
  by code_simp

lemma looping_matrix:
  "map_sum id matrix (filled gap_csv ''AA'' ''ACA'' 2 (- 1) (- 1) (Some ''pam'') True) =
     Inr [[0, 0, 0, 0], [0, 2, 1, 2], [0, 2, 1, 3]]"
  by code_simp

lemma looping_indices: "indices [[0, 0, 0, 0], [0, 2, 1, 2], [0, 2, 1, 3]] = [(2, 3)]"
  by code_simp

lemma looping_steps:
  "trace_step (projr (filled gap_csv ''AA'' ''ACA'' 2 (- 1) (- 1) (Some ''pam'') True)) (2, 3) =
     Inr (3, Some ((1, 2), CHR ''A'', CHR ''A''))"
  "trace_step (projr (filled gap_csv ''AA'' ''ACA'' 2 (- 1) (- 1) (Some ''pam'') True)) (1, 2) =
     Inr (1, None)"
  by code_simp+

text \<open>Sequences \<open>A\<close> and \<open>A\<close>, default scalars, the table \<open>star_frame\<close> loaded under the
  name \<open>blosum\<close>, global mode; \<open>star_init\<close> is the matrix before the fill.\<close>

lemma star_isr:
  "\<not> isl (filled star_csv ''A'' ''A'' 1 (- 1) (- 1) (Some ''blosum'') False)"
  by code_simp

lemma star_init:
  "map_sum id matrix (init star_csv ''A'' ''A'' 1 (- 1) (- 1) (Some ''blosum'') False) =
     Inr [[1, - 4], [- 4, 0]]"
  by code_simp

lemma star_matrix:
  "map_sum id matrix (filled star_csv ''A'' ''A'' 1 (- 1) (- 1) (Some ''blosum'') False) =
     Inr [[1, - 4], [- 4, 6]]"
  by code_simp

lemma star_step:
  "trace_step (projr (filled star_csv ''A'' ''A'' 1 (- 1) (- 1) (Some ''blosum'') False)) (1, 1) =
     Inr (6, Some ((0, 0), CHR ''A'', CHR ''A''))"
  by code_simp

lemma star_scores:
  "score_pair (projr (filled star_csv ''A'' ''A'' 1 (- 1) (- 1) (Some ''blosum'') False))
     (CHR ''A'') (CHR ''A'') = Inr 5 \<and>
   score_gap (projr (filled star_csv ''A'' ''A'' 1 (- 1) (- 1) (Some ''blosum'') False))
     (CHR ''A'') = Inr (- 5)"
  by code_simp

subsection \<open>C1: the candidates of the fill step\<close>

text \<open>
  C1 says that the fill step takes, for the left candidate, the table entry of
  \<open>seq2[j-1]\<close> against the gap and, for the upper candidate, that of \<open>seq1[i-1]\<close>, the
  decomposition the traceback tests. \<open>cell\<close> pairs them the other way round
  (\<open>cell_candidates\<close>): the left neighbour goes with \<open>(seq1[i-1], '-')\<close> and the upper one
  with \<open>('-', seq2[j-1])\<close>. With the sequences \<open>A\<close> and \<open>C\<close> and a symmetric table in
  which the gap costs 0 against \<open>A\<close> and -5 against \<open>C\<close>, the filled matrix holds -2 at
  \<open>(1, 1)\<close>, where the maximum of the three candidates of the specification is -7.
\<close>

theorem C1_fill_pairs_gap_entries_crosswise:
  "map_sum id matrix (filled gap_csv ''A'' ''C'' 1 (- 1) (- 1) (Some ''pam'') False) =
     Inr [[0, - 6], [- 1, - 2]] \<and>
   spec_cell (projr (filled gap_csv ''A'' ''C'' 1 (- 1) (- 1) (Some ''pam'') False)) 1 1 =
     Inr (- 7)"
  using gapped_matrix gapped_spec_cell by simp

subsection \<open>C2: the origin of the global matrix\<close>

text \<open>
  C2 says that in global mode the built matrix has 0 at \<open>(0, 0)\<close> and that each border
  cell is its predecessor plus the gap score of its symbol, for every scoring scheme, a
  loaded table included. The loop of \<open>init_matrix\<close> runs over \<open>range(axis)\<close>, from
  the index 0 of \<open>'-' + seq\<close>, so its first pass writes the table entry of the gap symbol
  against itself at \<open>(0, 0)\<close>. With \<open>A\<close> against \<open>A\<close> and a table that holds 1 there
  (and 4 for \<open>A\<close> against \<open>A\<close>, -4 for \<open>A\<close> against the gap), the built matrix holds 1 at
  \<open>(0, 0)\<close> and -4 at \<open>(0, 1)\<close> and \<open>(1, 0)\<close>, where C2 gives 0 at the origin and
  \<open>score_gap = -5\<close> next to it. After the fill the corner holds 6 and the traceback
  prints \<open>A\<close> over \<open>A\<close>, an alignment whose one move scores \<open>score_pair = 5\<close>.
\<close>

theorem C2_origin_holds_table_entry:
  "map_sum id matrix (init star_csv ''A'' ''A'' 1 (- 1) (- 1) (Some ''blosum'') False) =
     Inr [[1, - 4], [- 4, 0]] \<and>
   run star_csv ''A'' ''A'' 1 (- 1) (- 1) (Some ''blosum'') True False =
     Some (Inr ([[1, - 4], [- 4, 6]], Some [((1, 1), ''A'', ''A'')])) \<and>
   score_pair (projr (filled star_csv ''A'' ''A'' 1 (- 1) (- 1) (Some ''blosum'') False))
     (CHR ''A'') (CHR ''A'') = Inr 5 \<and>
   score_gap (projr (filled star_csv ''A'' ''A'' 1 (- 1) (- 1) (Some ''blosum'') False))
     (CHR ''A'') = Inr (- 5)"
proof -
  obtain a where a: "filled star_csv ''A'' ''A'' 1 (- 1) (- 1) (Some ''blosum'') False = Inr a"
    and p: "projr (filled star_csv ''A'' ''A'' 1 (- 1) (- 1) (Some ''blosum'') False) = a"
    using star_isr by (rule filled_obtain)
  have m: "matrix a = [[1, - 4], [- 4, 6]]" using star_matrix by (simp add: a)
  have c: "corner (matrix a) = (1, 1)" by (simp add: m corner_def shape_def)
  have s: "trace_step a (1, 1) = Inr (6, Some ((0, 0), CHR ''A'', CHR ''A''))"
    using star_step by (simp add: p)
  have "global_walk a ((1, 1), [], []) = Some (Inr ((0, 0), ''A'', ''A''))"
    apply (subst global_walk.simps)
    apply (simp add: s)
    apply (subst global_walk.simps)
    apply simp
    done
  then have "run star_csv ''A'' ''A'' 1 (- 1) (- 1) (Some ''blosum'') True False =
     Some (Inr ([[1, - 4], [- 4, 6]], Some [((1, 1), ''A'', ''A'')]))"
    by (simp add: run_def a select_global_alignment_def c c [unfolded m] m print_alignment_def)
  then show ?thesis using star_init star_scores by simp
qed

subsection \<open>C3: the test of the diagonal neighbour\<close>

text \<open>
  C3 says that the traceback takes the first neighbour, in the order diagonal, left, up,
  whose stored score differs from the current one by exactly the score of that move. The
  order is the source's, but the diagonal test also accepts a difference of
  \<open>mismatch + weight\<close> between equal symbols, which its comment reserves for symbols
  that differ. With \<open>A\<close> against \<open>A\<close>, \<open>match = -3\<close>, \<open>mismatch = -2\<close>, \<open>gap = -1\<close>, the
  cell \<open>(1, 1)\<close> holds -2; the diagonal move scores \<open>score_pair = -3\<close>, not \<open>-2 - 0\<close>,
  the left move scores \<open>score_gap = -1 = -2 - (-1)\<close>; the step goes to the diagonal
  neighbour all the same and the run prints \<open>A\<close> over \<open>A\<close>.
\<close>

theorem C3_diagonal_taken_without_its_score:
  "run no_csv ''A'' ''A'' (- 3) (- 1) (- 2) None True False =
     Some (Inr ([[0, - 1], [- 1, - 2]], Some [((1, 1), ''A'', ''A'')])) \<and>
   trace_step (projr (filled no_csv ''A'' ''A'' (- 3) (- 1) (- 2) None False)) (1, 1) =
     Inr (- 2, Some ((0, 0), CHR ''A'', CHR ''A'')) \<and>
   score_pair (projr (filled no_csv ''A'' ''A'' (- 3) (- 1) (- 2) None False))
       (CHR ''A'') (CHR ''A'') = Inr (- 3) \<and>
   score_gap (projr (filled no_csv ''A'' ''A'' (- 3) (- 1) (- 2) None False))
       (CHR ''A'') = Inr (- 1)"
proof -
  obtain a where a: "filled no_csv ''A'' ''A'' (- 3) (- 1) (- 2) None False = Inr a"
    and p: "projr (filled no_csv ''A'' ''A'' (- 3) (- 1) (- 2) None False) = a"
    using twin_isr by (rule filled_obtain)
  have m: "matrix a = [[0, - 1], [- 1, - 2]]" using twin_matrix by (simp add: a)
  have c: "corner (matrix a) = (1, 1)" by (simp add: m corner_def shape_def)
  have s: "trace_step a (1, 1) = Inr (- 2, Some ((0, 0), CHR ''A'', CHR ''A''))"
    using twin_step by (simp add: p)
  have "global_walk a ((1, 1), [], []) = Some (Inr ((0, 0), ''A'', ''A''))"
    apply (subst global_walk.simps)
    apply (simp add: s)
    apply (subst global_walk.simps)
    apply simp
    done
  then have "run no_csv ''A'' ''A'' (- 3) (- 1) (- 2) None True False =
     Some (Inr ([[0, - 1], [- 1, - 2]], Some [((1, 1), ''A'', ''A'')]))"
    by (simp add: run_def a select_global_alignment_def c c [unfolded m] m print_alignment_def)
  then show ?thesis using twin_step twin_scores by simp
qed

subsection \<open>C5: the entries of a local result\<close>

text \<open>
  C5 says that in local mode the result holds exactly one entry for every coordinate
  whose cell equals the maximum of the matrix, keyed by that coordinate. With \<open>AA\<close>
  against \<open>ACA\<close>, \<open>match = 2\<close> and the table of C1, the filled matrix has its only
  maximum, 3, at \<open>(2, 3)\<close>, so the result should hold one entry, keyed \<open>(2, 3)\<close>. The
  walk from there steps to \<open>(1, 2)\<close>, which holds 1; because the fill step paired the gap
  entries the other way round, none of the three tests reproduces that 1, \<open>current\<close> and
  \<open>value\<close> stay as they are, and the \<open>while\<close> loop never returns:
  \<open>select_local_alignment\<close> produces no result and neither does the run.
\<close>

theorem C5_local_result_not_produced:
  "map_sum id matrix (filled gap_csv ''AA'' ''ACA'' 2 (- 1) (- 1) (Some ''pam'') True) =
     Inr [[0, 0, 0, 0], [0, 2, 1, 2], [0, 2, 1, 3]] \<and>
   select_local_alignment
     (projr (filled gap_csv ''AA'' ''ACA'' 2 (- 1) (- 1) (Some ''pam'') True)) = None \<and>
   run gap_csv ''AA'' ''ACA'' 2 (- 1) (- 1) (Some ''pam'') True True = None"
proof -
  obtain a where a: "filled gap_csv ''AA'' ''ACA'' 2 (- 1) (- 1) (Some ''pam'') True = Inr a"
    and p: "projr (filled gap_csv ''AA'' ''ACA'' 2 (- 1) (- 1) (Some ''pam'') True) = a"
    using looping_isr by (rule filled_obtain)
  have m: "matrix a = [[0, 0, 0, 0], [0, 2, 1, 2], [0, 2, 1, 3]]"
    using looping_matrix by (simp add: a)
  note s = looping_steps [unfolded p]
  have g: "mat_get (matrix a) (2, 3) = Inr 3" unfolding m by code_simp
  have "local_walk a (1, (1, 2), ''A'', ''A'') = None"
    using s(2) by (rule stuck_local_walk_None) simp
  then have w: "local_walk a (3, (2, 3), [], []) = None"
    apply (subst local_walk.simps)
    apply (simp add: s)
    apply (subst local_walk.simps)
    apply (simp add: s)
    done
  have sel: "select_local_alignment a = None"
    unfolding select_local_alignment_def m looping_indices
    using g w by (simp add: m)
  then have "run gap_csv ''AA'' ''ACA'' 2 (- 1) (- 1) (Some ''pam'') True True = None"
    by (simp add: run_def a)
  with sel looping_matrix show ?thesis by (simp add: p)
qed

subsection \<open>C6: an empty first sequence\<close>

text \<open>
  C6 is the scenario \<open>seq1 = ""\<close>, \<open>seq2 = "AC"\<close> in global mode. The matrix is the single
  row \<open>0, -1, -2\<close>, as claimed. The traceback does not yield \<open>--\<close> over \<open>AC\<close>: on its
  first pass, at \<open>(0, 2)\<close>, the loop body reads \<open>self.seq1[current[0] - 1]\<close>, the index
  -1 of an empty string, before it looks at the direction, and \<open>IndexError\<close> ends the
  run.
\<close>

theorem C6_empty_seq1_raises:
  "run no_csv [] ''AC'' 1 (- 1) (- 1) None False False = Some (Inr ([[0, - 1, - 2]], None)) \<and>
   run no_csv [] ''AC'' 1 (- 1) (- 1) None True False = Some (Inl IndexError)"
proof -
  obtain a where a: "filled no_csv [] ''AC'' 1 (- 1) (- 1) None False = Inr a"
    and p: "projr (filled no_csv [] ''AC'' 1 (- 1) (- 1) None False) = a"
    using empty_isr by (rule filled_obtain)
  have m: "matrix a = [[0, - 1, - 2]]" using empty_matrix by (simp add: a)
  have c: "corner (matrix a) = (0, 2)" by (simp add: m corner_def shape_def)
  have s: "trace_step a (0, 2) = Inl IndexError" using empty_step by (simp add: p)
  have "global_walk a ((0, 2), [], []) = Some (Inl IndexError)"
    by (subst global_walk.simps) (simp add: s)
  then show ?thesis
    by (simp add: run_def a select_global_alignment_def c c [unfolded m] m)
qed

subsection \<open>C8: termination of the traceback\<close>

text \<open>
  C8 says that the traceback terminates on every input, with or without a loaded table.
  On the input of C1 the value stored at \<open>(1, 1)\<close> is reproduced by none of the three
  tests of the traceback, because the fill step paired the gap entries the other way
  round. The loop over the neighbours ends without \<open>break\<close>, \<open>current\<close> stays
  \<open>(1, 1)\<close>, and the \<open>while\<close> loop never returns: the run has no result.
\<close>

theorem C8_global_walk_does_not_return:
  "run gap_csv ''A'' ''C'' 1 (- 1) (- 1) (Some ''pam'') True False = None"
proof -
  obtain a where a: "filled gap_csv ''A'' ''C'' 1 (- 1) (- 1) (Some ''pam'') False = Inr a"
    and p: "projr (filled gap_csv ''A'' ''C'' 1 (- 1) (- 1) (Some ''pam'') False) = a"
    using gapped_isr by (rule filled_obtain)
  have m: "matrix a = [[0, - 6], [- 1, - 2]]" using gapped_matrix by (simp add: a)
  have c: "corner (matrix a) = (1, 1)" by (simp add: m corner_def shape_def)
  have "trace_step a (1, 1) = Inr (- 2, None)" using gapped_step by (simp add: p)
  then have "global_walk a ((1, 1), [], []) = None" by (rule stuck_walk_None) simp
  then show ?thesis by (simp add: run_def a select_global_alignment_def c)
qed

subsection \<open>C10: a local walk at the border\<close>

text \<open>
  C10 says that row 0 and column 0 stay 0 in local mode, so that a local walk that
  reaches a border cell halts there. The \<open>while\<close> test reads \<open>value\<close>, which still holds
  the score of the cell the walk came from; the body runs once more at the border cell.
  With \<open>A\<close> against \<open>AA\<close> and \<open>gap = 0\<close> the walk from \<open>(1, 2)\<close> reaches the border cell
  \<open>(0, 1)\<close>, whose left neighbour passes the test \<open>0 - 0 = gap + 0\<close>: the walk goes on
  to \<open>(0, 0)\<close> and the printed alignment has the extra pair \<open>-\<close> over \<open>A\<close>.
\<close>

theorem C10_walk_goes_on_from_border_cell:
  "run no_csv ''A'' ''AA'' 1 0 (- 1) None True True =
     Some (Inr ([[0, 0, 0], [0, 1, 1]],
                Some [((1, 1), ''A'', ''A''), ((1, 2), ''-A'', ''AA'')])) \<and>
   trace_step (projr (filled no_csv ''A'' ''AA'' 1 0 (- 1) None True)) (0, 1) =
     Inr (0, Some ((0, 0), CHR ''-'', CHR ''A''))"
proof -
  obtain a where a: "filled no_csv ''A'' ''AA'' 1 0 (- 1) None True = Inr a"
    and p: "projr (filled no_csv ''A'' ''AA'' 1 0 (- 1) None True) = a"
    using free_isr by (rule filled_obtain)
  have m: "matrix a = [[0, 0, 0], [0, 1, 1]]" using free_matrix by (simp add: a)
  note s = free_steps [unfolded p]
  have g: "mat_get (matrix a) (1, 1) = Inr 1" "mat_get (matrix a) (1, 2) = Inr 1"
    unfolding m by code_simp+
  have w1: "local_walk a (1, (1, 1), [], []) = Some (Inr (0, (0, 0), ''A'', ''A''))"
    apply (subst local_walk.simps)
    apply (simp add: s)
    apply (subst local_walk.simps)
    apply (simp add: s)
    apply (subst local_walk.simps)
    apply simp
    done
  have w2: "local_walk a (1, (1, 2), [], []) = Some (Inr (0, (0, 0), ''A-'', ''AA''))"
    apply (subst local_walk.simps)
    apply (simp add: s)
    apply (subst local_walk.simps)
    apply (simp add: s)
    apply (subst local_walk.simps)
    apply simp
    done
  have "select_local_alignment a =
          Some (Inr [((1, 1), ''A'', ''A''), ((1, 2), ''A-'', ''AA'')])"
    unfolding select_local_alignment_def m indices_free
    using g w1 w2 by (simp add: m)
  then have "run no_csv ''A'' ''AA'' 1 0 (- 1) None True True =
     Some (Inr ([[0, 0, 0], [0, 1, 1]],
                Some [((1, 1), ''A'', ''A''), ((1, 2), ''-A'', ''AA'')]))"
    by (simp add: run_def a m print_alignment_def)
  then show ?thesis using free_steps(4) by simp
qed

section \<open>C9: a table name that is not recognised\<close>

text \<open>
  C9: a request for a table whose name is not one of the two recognised ones ends the
  run with an error before any matrix is built. A request is a non-empty name (the
  empty one is falsy, like \<open>False\<close>); the name is recognised when its lower-casing is
  \<open>pam\<close> or \<open>blosum\<close>. For every other name \<open>set_weights\<close> raises
  \<open>UnboundLocalError\<close> without consulting the file system, so the constructor fails
  before \<open>init_matrix\<close>, and so does the run.
\<close>

theorem C9_unrecognised_name_raises:
  assumes "name \<noteq> []" and "lower name \<noteq> ''pam''" and "lower name \<noteq> ''blosum''"
  shows "set_weights read_csv u1 u2 (Some name) = Inl UnboundLocalError \<and>
         init read_csv s1 s2 ma ga mi (Some name) lo = Inl UnboundLocalError \<and>
         run read_csv s1 s2 ma ga mi (Some name) al lo = Some (Inl UnboundLocalError)"
  using assms by (simp add: set_weights_def init_def filled_def run_def)

theorem C9_unrecognised_name_raises_witness:
  "''pam30'' \<noteq> [] \<and> lower ''pam30'' \<noteq> ''pam'' \<and> lower ''pam30'' \<noteq> ''blosum'' \<and>
   init gap_csv ''A'' ''C'' 1 (- 1) (- 1) (Some ''pam30'') False = Inl UnboundLocalError \<and>
   run gap_csv ''A'' ''C'' 1 (- 1) (- 1) (Some ''pam30'') True False =
     Some (Inl UnboundLocalError)"
proof -
  have h1: "''pam30'' \<noteq> []" by simp
  have h2: "lower ''pam30'' \<noteq> ''pam''" by (simp add: lower_def)
  have h3: "lower ''pam30'' \<noteq> ''blosum''" by (simp add: lower_def)
  show ?thesis
    using h1 h2 h3
      C9_unrecognised_name_raises [OF h1 h2 h3, of gap_csv "[]" "[]" "''A''" "''C''" 1 "- 1" "- 1"
        False True]
    by simp
qed

section \<open>C4: local mode keeps every cell non-negative\<close>

subsection \<open>Assignments keep the shape and the sign\<close>

lemma norm_index_less: "norm_index n k = Some p \<Longrightarrow> p < n"
  by (auto simp: norm_index_def split: if_splits)

lemma mat_set_shape:
  assumes "mat_set m p v = Inr m'"
  shows "map length m' = map length m"
proof -
  from assms obtain r c where r: "r < length m" and c: "c < length (m ! r)"
    and m': "m' = m[r := (m ! r)[c := v]]"
    by (auto simp: mat_set_def split: option.splits dest: norm_index_less)
  show ?thesis
    unfolding m' by (simp add: map_update list_update_same_conv r)
qed

lemma mat_set_cells:
  assumes "mat_set m p v = Inr m'" and "row \<in> set m'" and "x \<in> set row"
  shows "x = v \<or> (\<exists>row' \<in> set m. x \<in> set row')"
proof -
  from assms(1) obtain r c where r: "r < length m"
    and m': "m' = m[r := (m ! r)[c := v]]"
    by (auto simp: mat_set_def split: option.splits dest: norm_index_less)
  from assms(2) have "row = (m ! r)[c := v] \<or> row \<in> set m"
    unfolding m' using set_update_subset_insert [of m r] by auto
  then show ?thesis
  proof
    assume "row = (m ! r)[c := v]"
    with assms(3) have "x = v \<or> x \<in> set (m ! r)"
      using set_update_subset_insert [of "m ! r" c] by auto
    with r show ?thesis by (auto intro: nth_mem)
  next
    assume "row \<in> set m"
    with assms(3) show ?thesis by blast
  qed
qed

subsection \<open>The fill loops\<close>

text \<open>\<open>align\<close> changes nothing but the matrix.\<close>

lemma align_row_fields:
  "align_row a i js = Inr a' \<Longrightarrow>
     seq1 a' = seq1 a \<and> seq2 a' = seq2 a \<and> local a' = local a \<and> weights a' = weights a \<and>
     match a' = match a \<and> gap a' = gap a \<and> mismatch a' = mismatch a \<and>
     map length (matrix a') = map length (matrix a)"
proof (induction js arbitrary: a)
  case Nil
  then show ?case by simp
next
  case (Cons j js)
  from Cons.prems obtain r m where
    m: "mat_set (matrix a) (int i, int j) (check_non_negativity a r) = Inr m"
    and rest: "align_row (a\<lparr>matrix := m\<rparr>) i js = Inr a'"
    by (auto split: sum.splits)
  from Cons.IH [OF rest] mat_set_shape [OF m] show ?case by simp
qed

lemma align_rows_fields:
  "align_rows a is = Inr a' \<Longrightarrow>
     seq1 a' = seq1 a \<and> seq2 a' = seq2 a \<and> local a' = local a \<and> weights a' = weights a \<and>
     match a' = match a \<and> gap a' = gap a \<and> mismatch a' = mismatch a \<and>
     map length (matrix a') = map length (matrix a)"
proof (induction "is" arbitrary: a)
  case Nil
  then show ?case by simp
next
  case (Cons i "is")
  from Cons.prems obtain b where
    row: "align_row a i [1..<length (seq2 a) + 1] = Inr b"
    and rest: "align_rows b is = Inr a'"
    by (auto split: sum.splits)
  from Cons.IH [OF rest] align_row_fields [OF row] show ?case by simp
qed

lemma align_row_nonneg:
  assumes "align_row a i js = Inr a'" and "local a"
    and "\<forall>row \<in> set (matrix a). \<forall>x \<in> set row. 0 \<le> x"
  shows "\<forall>row \<in> set (matrix a'). \<forall>x \<in> set row. 0 \<le> x"
  using assms
proof (induction js arbitrary: a)
  case Nil
  then show ?case by simp
next
  case (Cons j js)
  from Cons.prems(1) obtain r m where
    m: "mat_set (matrix a) (int i, int j) (check_non_negativity a r) = Inr m"
    and rest: "align_row (a\<lparr>matrix := m\<rparr>) i js = Inr a'"
    by (auto split: sum.splits)
  have v: "0 \<le> check_non_negativity a r"
    using Cons.prems(2) by (simp add: check_non_negativity_def)
  have "\<forall>row \<in> set m. \<forall>x \<in> set row. 0 \<le> x"
    using mat_set_cells [OF m] v Cons.prems(3) by blast
  with Cons.IH [OF rest] Cons.prems(2) show ?case by simp
qed

lemma align_rows_nonneg:
  assumes "align_rows a is = Inr a'" and "local a"
    and "\<forall>row \<in> set (matrix a). \<forall>x \<in> set row. 0 \<le> x"
  shows "\<forall>row \<in> set (matrix a'). \<forall>x \<in> set row. 0 \<le> x"
  using assms
proof (induction "is" arbitrary: a)
  case Nil
  then show ?case by simp
next
  case (Cons i "is")
  from Cons.prems(1) obtain b where
    row: "align_row a i [1..<length (seq2 a) + 1] = Inr b"
    and rest: "align_rows b is = Inr a'"
    by (auto split: sum.splits)
  have "local b" using align_row_fields [OF row] Cons.prems(2) by simp
  moreover have "\<forall>row \<in> set (matrix b). \<forall>x \<in> set row. 0 \<le> x"
    using align_row_nonneg [OF row Cons.prems(2,3)] .
  ultimately show ?case using Cons.IH [OF rest] by blast
qed

subsection \<open>The object built in local mode\<close>

lemma init_local:
  assumes "init read_csv s1 s2 ma ga mi w True = Inr a"
  shows "local a \<and> seq1 a = upper s1 \<and> seq2 a = upper s2 \<and>
         matrix a = zeros (length (upper s1) + 1) (length (upper s2) + 1)"
  using assms
  by (auto simp: init_def init_matrix_def Let_def split: sum.splits)

text \<open>
  C4: in local mode, after the matrix is built and filled, every cell is at least 0, for
  all sequences and every scoring scheme. The hypotheses say that construction and fill
  returned (a lookup in a loaded table may raise instead); the filled matrix then has its
  \<open>len(seq1) + 1\<close> rows of \<open>len(seq2) + 1\<close> cells, all of them non-negative, and every
  read of a cell returns a non-negative score.
\<close>

theorem C4_local_cells_nonnegative:
  assumes "init read_csv s1 s2 ma ga mi w True = Inr a" and "align a = Inr a'"
  shows "length (matrix a') = length (seq1 a') + 1 \<and>
         (\<forall>row \<in> set (matrix a'). length row = length (seq2 a') + 1 \<and> (\<forall>x \<in> set row. 0 \<le> x)) \<and>
         (\<forall>p x. mat_get (matrix a') p = Inr x \<longrightarrow> 0 \<le> x)"
proof -
  note i = init_local [OF assms(1)]
  have f: "seq1 a' = seq1 a" "seq2 a' = seq2 a" "map length (matrix a') = map length (matrix a)"
    using align_rows_fields [OF assms(2) [unfolded align_def]] by simp_all
  have z: "\<forall>row \<in> set (matrix a). \<forall>x \<in> set row. 0 \<le> x"
    using i by (auto simp: zeros_def)
  have n: "\<forall>row \<in> set (matrix a'). \<forall>x \<in> set row. 0 \<le> x"
    using align_rows_nonneg [OF assms(2) [unfolded align_def] _ z] i by simp
  have len: "length (matrix a') = length (seq1 a') + 1"
    using f(3) i f(1) by (metis length_map length_replicate zeros_def)
  have rows: "\<forall>row \<in> set (matrix a'). length row = length (seq2 a') + 1"
  proof
    fix row assume "row \<in> set (matrix a')"
    then have "length row \<in> set (map length (matrix a'))" by simp
    then have "length row \<in> set (map length (matrix a))" by (simp only: f(3))
    then show "length row = length (seq2 a') + 1"
      using i f(2) by (auto simp: zeros_def)
  qed
  have get: "0 \<le> x" if "mat_get (matrix a') p = Inr x" for p x
  proof -
    from that obtain r c where "r < length (matrix a')" "c < length (matrix a' ! r)"
      "x = matrix a' ! r ! c"
      by (auto simp: mat_get_def py_index_def split: sum.splits option.splits
          dest: norm_index_less)
    then show ?thesis using n by (metis nth_mem)
  qed
  from len rows n get show ?thesis by blast
qed

lemma local_example_isr:
  "\<not> isl (init no_csv ''AA'' ''ABA'' 3 (- 1) (- 3) None True) \<and>
   \<not> isl (align (projr (init no_csv ''AA'' ''ABA'' 3 (- 1) (- 3) None True)))"
  by code_simp

lemma local_example_matrix:
  "map_sum id matrix (align (projr (init no_csv ''AA'' ''ABA'' 3 (- 1) (- 3) None True))) =
     Inr [[0, 0, 0, 0], [0, 3, 2, 3], [0, 3, 2, 5]]"
  by code_simp

theorem C4_local_cells_nonnegative_witness:
  "\<not> isl (init no_csv ''AA'' ''ABA'' 3 (- 1) (- 3) None True) \<and>
   \<not> isl (align (projr (init no_csv ''AA'' ''ABA'' 3 (- 1) (- 3) None True))) \<and>
   length (matrix (projr (align (projr (init no_csv ''AA'' ''ABA'' 3 (- 1) (- 3) None True))))) =
     length ''AA'' + 1 \<and>
   mat_get (matrix (projr (align (projr (init no_csv ''AA'' ''ABA'' 3 (- 1) (- 3) None True)))))
     (2, 3) = Inr 5 \<and>
   (0 :: int) \<le> 5"
proof -
  obtain a where a: "init no_csv ''AA'' ''ABA'' 3 (- 1) (- 3) None True = Inr a"
    and p: "projr (init no_csv ''AA'' ''ABA'' 3 (- 1) (- 3) None True) = a"
    using local_example_isr by (blast elim: filled_obtain)
  obtain a' where a': "align a = Inr a'"
    using local_example_isr unfolding p by (blast elim: filled_obtain)
  have m: "matrix a' = [[0, 0, 0, 0], [0, 3, 2, 3], [0, 3, 2, 5]]"
    using local_example_matrix by (simp add: p a')
  have g: "mat_get (matrix a') (2, 3) = Inr 5"
    unfolding m by code_simp
  note t = C4_local_cells_nonnegative [OF a a']
  from t g have "(0 :: int) \<le> 5" by blast
  moreover from t have "length (matrix a') = length ''AA'' + 1" by (simp add: m)
  ultimately show ?thesis using local_example_isr g by (simp add: p a')
qed

section \<open>The entries of a local result\<close>

subsection \<open>The start coordinates\<close>

lemma matrix_max_greatest:
  assumes "x < length m" and "y < length (m ! x)"
  shows "m ! x ! y \<le> matrix_max m"
    and "\<exists>x' y'. x' < length m \<and> y' < length (m ! x') \<and> m ! x' ! y' = matrix_max m"
proof -
  have "m ! x \<in> set m" and "m ! x ! y \<in> set (m ! x)" using assms by simp_all
  then have mem: "m ! x ! y \<in> set (concat m)" by auto
  then show "m ! x ! y \<le> matrix_max m" by (simp add: matrix_max_def)
  from mem have "set (concat m) \<noteq> {}" by (metis empty_iff)
  then have "Max (set (concat m)) \<in> set (concat m)" by (intro Max_in) simp_all
  then obtain row where "row \<in> set m" "matrix_max m \<in> set row"
    by (auto simp: matrix_max_def)
  then show "\<exists>x' y'. x' < length m \<and> y' < length (m ! x') \<and> m ! x' ! y' = matrix_max m"
    by (metis in_set_conv_nth)
qed


lemma indices_set:
  "set (indices m) =
     {(int x, int y) | x y. x < length m \<and> y < length (m ! x) \<and> m ! x ! y = matrix_max m}"
  by (auto simp: indices_def)

lemma distinct_concat_keyed:
  assumes "distinct xs" and "\<And>x. x \<in> set xs \<Longrightarrow> distinct (f x)"
    and "\<And>x p. x \<in> set xs \<Longrightarrow> p \<in> set (f x) \<Longrightarrow> fst p = g x" and "inj_on g (set xs)"
  shows "distinct (concat (map f xs))"
  using assms
proof (induction xs)
  case Nil
  then show ?case by simp
next
  case (Cons x xs)
  have "set (f x) \<inter> (\<Union>y \<in> set xs. set (f y)) = {}"
  proof (rule ccontr)
    assume "set (f x) \<inter> (\<Union>y \<in> set xs. set (f y)) \<noteq> {}"
    then obtain p y where p: "p \<in> set (f x)" "y \<in> set xs" "p \<in> set (f y)" by auto
    then have "g x = g y" using Cons.prems(3) [of x p] Cons.prems(3) [of y p] by simp
    then have "x = y" using Cons.prems(4) p(2) by (auto dest: inj_onD)
    with Cons.prems(1) p(2) show False by simp
  qed
  moreover have "distinct (concat (map f xs))"
    using Cons by (auto intro!: Cons.IH simp: inj_on_def)
  ultimately show ?case using Cons.prems(2) by simp
qed

lemma distinct_indices: "distinct (indices m)"
  unfolding indices_def
  by (rule distinct_concat_keyed [where g = int]) (auto simp: distinct_map inj_on_def)

lemma mat_get_indices:
  assumes "p \<in> set (indices m)"
  shows "mat_get m p = Inr (matrix_max m)"
  using assms by (auto simp: indices_set mat_get_nat)

subsection \<open>The loop over the start coordinates\<close>

lemma update_fresh: "k \<notin> fst ` set d \<Longrightarrow> AList.update k v d = d @ [(k, v)]"
  by (induction d) auto

lemma local_starts_entries:
  assumes "local_starts a xs d = Some (Inr d')" and "distinct xs"
    and "set xs \<inter> fst ` set d = {}"
    and "\<And>p. p \<in> set xs \<Longrightarrow> mat_get (matrix a) p = Inr mx"
  shows "\<exists>es. d' = d @ es \<and> map fst es = xs \<and>
              (\<forall>(c, al0, al1) \<in> set es.
                  \<exists>v cur. local_walk a (mx, c, [], []) = Some (Inr (v, cur, al0, al1)))"
  using assms
proof (induction xs arbitrary: d)
  case Nil
  then show ?case by simp
next
  case (Cons start rest)
  have g: "mat_get (matrix a) start = Inr mx" using Cons.prems(4) by simp
  from Cons.prems(1) g obtain v cur al0 al1 where
    w: "local_walk a (mx, start, [], []) = Some (Inr (v, cur, al0, al1))"
    and r: "local_starts a rest (AList.update start (al0, al1) d) = Some (Inr d')"
    by (auto split: option.splits sum.splits)
  have fresh: "start \<notin> fst ` set d" using Cons.prems(3) by auto
  note u = update_fresh [OF fresh, of "(al0, al1)"]
  have "\<exists>es. d' = (d @ [(start, al0, al1)]) @ es \<and> map fst es = rest \<and>
              (\<forall>(c, al0, al1) \<in> set es.
                  \<exists>v cur. local_walk a (mx, c, [], []) = Some (Inr (v, cur, al0, al1)))"
  proof (rule Cons.IH)
    show "local_starts a rest (d @ [(start, al0, al1)]) = Some (Inr d')"
      using r by (simp only: u)
    show "distinct rest" using Cons.prems(2) by simp
    show "set rest \<inter> fst ` set (d @ [(start, al0, al1)]) = {}"
      using Cons.prems(2,3) by auto
    show "\<And>p. p \<in> set rest \<Longrightarrow> mat_get (matrix a) p = Inr mx"
      using Cons.prems(4) by simp
  qed
  then obtain es where es: "d' = (d @ [(start, al0, al1)]) @ es" "map fst es = rest"
    "\<forall>(c, al0, al1) \<in> set es.
        \<exists>v cur. local_walk a (mx, c, [], []) = Some (Inr (v, cur, al0, al1))"
    by blast
  show ?case
  proof (intro exI conjI)
    show "d' = d @ ((start, al0, al1) # es)" using es(1) by simp
    show "map fst ((start, al0, al1) # es) = start # rest" using es(2) by simp
    show "\<forall>(c, al0, al1) \<in> set ((start, al0, al1) # es).
            \<exists>v cur. local_walk a (mx, c, [], []) = Some (Inr (v, cur, al0, al1))"
      using es(3) w by auto
  qed
qed

lemma local_walk_zero: "local_walk a (0, c, x, y) = Some (Inr (0, c, x, y))"
  by (subst local_walk.simps) simp

lemma local_starts_zero:
  assumes "distinct xs" and "set xs \<inter> fst ` set d = {}"
    and "\<And>p. p \<in> set xs \<Longrightarrow> mat_get (matrix a) p = Inr 0"
  shows "local_starts a xs d = Some (Inr (d @ map (\<lambda>c. (c, [], [])) xs))"
  using assms
proof (induction xs arbitrary: d)
  case Nil
  then show ?case by simp
next
  case (Cons start rest)
  have fresh: "start \<notin> fst ` set d" using Cons.prems(2) by auto
  have "local_starts a rest (d @ [(start, [], [])]) =
          Some (Inr ((d @ [(start, [], [])]) @ map (\<lambda>c. (c, [], [])) rest))"
    using Cons.prems by (intro Cons.IH) auto
  then show ?case
    using Cons.prems(3) [of start] by (simp add: local_walk_zero update_fresh [OF fresh])
qed

text \<open>
  What \<open>select_local_alignment\<close> returns, when it returns.
  \<^item> The keys of the dictionary are the coordinates \<open>indices\<close>, each once, and the
    entry of a key is the pair of lists the walk from that key ended with.
  \<^item> \<open>indices\<close> are exactly the coordinates of the cells equal to \<open>matrix_max\<close>,
    which is the greatest cell (\<open>matrix_max_greatest\<close>).
  \<^item> When the maximum is 0 the method does return, and its dictionary maps every such
    coordinate to two empty lists.
  Whether the method returns is another matter: see the run of \<open>AA\<close> against \<open>ACA\<close>
  above and \<open>local_result_without_table\<close> below.
\<close>

lemma local_result_entries:
  "(\<forall>d. select_local_alignment a = Some (Inr d) \<longrightarrow>
      map fst d = indices (matrix a) \<and> distinct (map fst d) \<and>
      (\<forall>(c, al0, al1) \<in> set d.
          \<exists>v cur. local_walk a (matrix_max (matrix a), c, [], []) =
                     Some (Inr (v, cur, al0, al1)))) \<and>
   set (indices (matrix a)) =
     {(int x, int y) | x y. x < length (matrix a) \<and> y < length (matrix a ! x) \<and>
        matrix a ! x ! y = matrix_max (matrix a)} \<and>
   (matrix_max (matrix a) = 0 \<longrightarrow>
      select_local_alignment a = Some (Inr (map (\<lambda>c. (c, [], [])) (indices (matrix a)))))"
proof (intro conjI allI impI)
  fix d
  assume d: "select_local_alignment a = Some (Inr d)"
  have "\<exists>es. d = [] @ es \<and> map fst es = indices (matrix a) \<and>
          (\<forall>(c, al0, al1) \<in> set es.
              \<exists>v cur. local_walk a (matrix_max (matrix a), c, [], []) =
                         Some (Inr (v, cur, al0, al1)))"
    using d [unfolded select_local_alignment_def]
    by (rule local_starts_entries) (simp_all add: distinct_indices mat_get_indices)
  then show "map fst d = indices (matrix a)"
    and "\<forall>(c, al0, al1) \<in> set d.
          \<exists>v cur. local_walk a (matrix_max (matrix a), c, [], []) =
                     Some (Inr (v, cur, al0, al1))"
    by auto
  then show "distinct (map fst d)" by (simp add: distinct_indices)
next
  show "set (indices (matrix a)) =
     {(int x, int y) | x y. x < length (matrix a) \<and> y < length (matrix a ! x) \<and>
        matrix a ! x ! y = matrix_max (matrix a)}"
    by (rule indices_set)
next
  assume z: "matrix_max (matrix a) = 0"
  have "local_starts a (indices (matrix a)) [] =
          Some (Inr ([] @ map (\<lambda>c. (c, [], [])) (indices (matrix a))))"
    by (rule local_starts_zero) (simp_all add: distinct_indices mat_get_indices z)
  then show "select_local_alignment a =
               Some (Inr (map (\<lambda>c. (c, [], [])) (indices (matrix a))))"
    by (simp add: select_local_alignment_def)
qed

text \<open>Sequences \<open>A\<close> and \<open>C\<close>, default scalars, no table, local mode: nothing scores.\<close>

lemma flat_isr: "\<not> isl (filled no_csv ''A'' ''C'' 1 (- 1) (- 1) None True)"
  by code_simp

lemma flat_matrix:
  "map_sum id matrix (filled no_csv ''A'' ''C'' 1 (- 1) (- 1) None True) = Inr [[0, 0], [0, 0]]"
  by code_simp

lemma flat_max: "matrix_max [[0, 0], [0, 0]] = 0"
  by code_simp

lemma flat_indices: "indices [[0, 0], [0, 0]] = [(0, 0), (0, 1), (1, 0), (1, 1)]"
  by code_simp

lemma local_result_entries_example:
  "matrix_max (matrix (projr (filled no_csv ''A'' ''C'' 1 (- 1) (- 1) None True))) = 0 \<and>
   select_local_alignment (projr (filled no_csv ''A'' ''C'' 1 (- 1) (- 1) None True)) =
     Some (Inr [((0, 0), [], []), ((0, 1), [], []), ((1, 0), [], []), ((1, 1), [], [])]) \<and>
   map fst [((0, 0), [], []), ((0, 1), [], []), ((1, 0), [], []), ((1, 1), ([] :: string), ([] :: string))] =
     indices (matrix (projr (filled no_csv ''A'' ''C'' 1 (- 1) (- 1) None True)))"
proof -
  obtain a where a: "filled no_csv ''A'' ''C'' 1 (- 1) (- 1) None True = Inr a"
    and p: "projr (filled no_csv ''A'' ''C'' 1 (- 1) (- 1) None True) = a"
    using flat_isr by (rule filled_obtain)
  have m: "matrix a = [[0, 0], [0, 0]]" using flat_matrix by (simp add: a)
  have z: "matrix_max (matrix a) = 0" by (simp only: m flat_max)
  have s: "select_local_alignment a =
             Some (Inr [((0, 0), [], []), ((0, 1), [], []), ((1, 0), [], []), ((1, 1), [], [])])"
    using local_result_entries [of a] z by (simp add: m flat_indices)
  have "map fst [((0, 0), [], []), ((0, 1), [], []), ((1, 0), [], []), ((1, 1), ([] :: string), ([] :: string))] =
          indices (matrix a)"
    using local_result_entries [of a] s by blast
  with z s show ?thesis by (simp only: p)
qed

section \<open>The borders in global mode\<close>

subsection \<open>One assignment\<close>

lemma mat_set_same:
  assumes "mat_set m (int r, int c) v = Inr m'"
  shows "r < length m \<and> c < length (m ! r) \<and> m' ! r ! c = v"
  using assms by (auto simp: mat_set_nat split: if_splits)

lemma mat_set_other:
  assumes "mat_set m (int r, int c) v = Inr m'" and "(r', c') \<noteq> (r, c)"
  shows "m' ! r' ! c' = m ! r' ! c'"
proof -
  from assms(1) have r: "r < length m" and m': "m' = m[r := (m ! r)[c := v]]"
    by (auto simp: mat_set_nat split: if_splits)
  show ?thesis
  proof (cases "r' = r")
    case True
    with assms(2) have "c' \<noteq> c" by simp
    with True r show ?thesis by (simp add: m')
  next
    case False
    then show ?thesis by (simp add: m')
  qed
qed

subsection \<open>The loop along one axis\<close>

text \<open>\<open>border i ax\<close> is the position the loop writes at step \<open>ax\<close>.\<close>

lemma init_axis_step:
  assumes "init_axis t g i s (ax # axs) (m, c) = Inr (m', c')"
  obtains w m1 where "ax < length s" and "t (CHR ''-'', s ! ax) = Some w"
    and "mat_set m (if i then (int 0, int ax) else (int ax, int 0)) (c + w) = Inr m1"
    and "init_axis t g i s axs (m1, c + (g + w)) = Inr (m', c')"
proof -
  from assms have l: "ax < length s" by (auto split: if_splits)
  from assms l obtain w where w: "t (CHR ''-'', s ! ax) = Some w"
    by (auto simp: loc_def split: option.splits)
  from assms l w obtain m1 where
    m1: "mat_set m (if i then (0, int ax) else (int ax, 0)) (c + w) = Inr m1"
    and r: "init_axis t g i s axs (m1, c + (g + w)) = Inr (m', c')"
    by (auto simp: loc_def split: sum.splits)
  from m1 have "mat_set m (if i then (int 0, int ax) else (int ax, int 0)) (c + w) = Inr m1"
    by (cases i) simp_all
  with l w r show thesis by (blast intro: that)
qed

lemma init_axis_shape:
  "init_axis t g i s axs (m, c) = Inr (m', c') \<Longrightarrow> map length m' = map length m"
proof (induction axs arbitrary: m c)
  case Nil
  then show ?case by simp
next
  case (Cons ax axs)
  from Cons.prems obtain w m1 where
    s: "mat_set m (if i then (int 0, int ax) else (int ax, int 0)) (c + w) = Inr m1"
    and r: "init_axis t g i s axs (m1, c + (g + w)) = Inr (m', c')"
    by (rule init_axis_step)
  from Cons.IH [OF r] mat_set_shape [OF s] show ?case by simp
qed

lemma init_axis_frame:
  assumes "init_axis t g i s axs (m, c) = Inr (m', c')"
    and "\<forall>ax \<in> set axs. (r', c'') \<noteq> (if i then (0, ax) else (ax, 0))"
  shows "m' ! r' ! c'' = m ! r' ! c''"
  using assms
proof (induction axs arbitrary: m c)
  case Nil
  then show ?case by simp
next
  case (Cons ax axs)
  from Cons.prems(1) obtain w m1 where
    s: "mat_set m (if i then (int 0, int ax) else (int ax, int 0)) (c + w) = Inr m1"
    and r: "init_axis t g i s axs (m1, c + (g + w)) = Inr (m', c')"
    by (rule init_axis_step)
  have "m1 ! r' ! c'' = m ! r' ! c''"
  proof (cases i)
    case True
    with s have "mat_set m (int 0, int ax) (c + w) = Inr m1" by simp
    moreover from True Cons.prems(2) have "(r', c'') \<noteq> (0, ax)" by auto
    ultimately show ?thesis by (rule mat_set_other)
  next
    case False
    with s have "mat_set m (int ax, int 0) (c + w) = Inr m1" by simp
    moreover from False Cons.prems(2) have "(r', c'') \<noteq> (ax, 0)" by auto
    ultimately show ?thesis by (rule mat_set_other)
  qed
  moreover have "m' ! r' ! c'' = m1 ! r' ! c''"
    using Cons.IH [OF r] Cons.prems(2) by simp
  ultimately show ?case by simp
qed

text \<open>After the loop over \<open>range(lo, n)\<close> started with \<open>counter = c\<close>: the first cell
  written holds \<open>c\<close> plus its table entry, and every later one holds its predecessor
  plus \<open>gap\<close> plus its own table entry.\<close>

lemma init_axis_values:
  assumes "init_axis t g i s [lo..<n] (m, c) = Inr (m', c')" and "lo < n"
  shows "(\<exists>w. t (CHR ''-'', s ! lo) = Some w \<and>
              (if i then m' ! 0 ! lo else m' ! lo ! 0) = c + w) \<and>
         (\<forall>k. lo < k \<and> k < n \<longrightarrow>
            (\<exists>w. t (CHR ''-'', s ! k) = Some w \<and>
               (if i then m' ! 0 ! k else m' ! k ! 0) =
               (if i then m' ! 0 ! (k - 1) else m' ! (k - 1) ! 0) + (g + w)))"
  using assms
proof (induction "n - lo" arbitrary: lo m c)
  case 0
  then show ?case by simp
next
  case (Suc d)
  from Suc.prems(2) have split: "[lo..<n] = lo # [Suc lo..<n]" by (simp add: upt_conv_Cons)
  from Suc.prems(1) [unfolded split] obtain w m1 where
    w: "t (CHR ''-'', s ! lo) = Some w"
    and s: "mat_set m (if i then (int 0, int lo) else (int lo, int 0)) (c + w) = Inr m1"
    and r: "init_axis t g i s [Suc lo..<n] (m1, c + (g + w)) = Inr (m', c')"
    by (rule init_axis_step)
  have here1: "(if i then m1 ! 0 ! lo else m1 ! lo ! 0) = c + w"
    using s mat_set_same [of m 0 lo "c + w" m1] mat_set_same [of m lo 0 "c + w" m1]
    by (cases i) simp_all
  have "(if i then m' ! 0 ! lo else m' ! lo ! 0) = (if i then m1 ! 0 ! lo else m1 ! lo ! 0)"
    using init_axis_frame [OF r, of 0 lo] init_axis_frame [OF r, of lo 0]
    by (cases i) auto
  with here1 have here: "(if i then m' ! 0 ! lo else m' ! lo ! 0) = c + w" by simp
  show ?case
  proof (cases "Suc lo < n")
    case False
    with w here show ?thesis by auto
  next
    case True
    have d: "d = n - Suc lo" using Suc.hyps(2) by simp
    note IH = Suc.hyps(1) [OF d r True]
    from IH obtain w1 where w1: "t (CHR ''-'', s ! Suc lo) = Some w1"
      and next1: "(if i then m' ! 0 ! Suc lo else m' ! Suc lo ! 0) = c + (g + w) + w1"
      by blast
    have "\<exists>w. t (CHR ''-'', s ! k) = Some w \<and>
               (if i then m' ! 0 ! k else m' ! k ! 0) =
               (if i then m' ! 0 ! (k - 1) else m' ! (k - 1) ! 0) + (g + w)"
      if k: "lo < k \<and> k < n" for k
    proof (cases "k = Suc lo")
      case True
      with w1 next1 here show ?thesis by (cases i) simp_all
    next
      case False
      with k have "Suc lo < k \<and> k < n" by simp
      with IH show ?thesis by blast
    qed
    with w here show ?thesis by blast
  qed
qed

subsection \<open>The two passes of \<open>init_matrix\<close>\<close>

lemma init_matrix_global:
  assumes "init_matrix a = Inr m" and "\<not> local a"
  shows "map length m = replicate (length (seq1 a) + 1) (length (seq2 a) + 1) \<and>
         (\<exists>v. weights a (CHR ''-'', CHR ''-'') = Some v \<and> m ! 0 ! 0 = v) \<and>
         (\<forall>k. 1 \<le> k \<and> k \<le> length (seq2 a) \<longrightarrow>
            (\<exists>v. weights a (CHR ''-'', seq2 a ! (k - 1)) = Some v \<and>
               m ! 0 ! k = m ! 0 ! (k - 1) + (gap a + v))) \<and>
         (\<forall>k. 1 \<le> k \<and> k \<le> length (seq1 a) \<longrightarrow>
            (\<exists>v. weights a (CHR ''-'', seq1 a ! (k - 1)) = Some v \<and>
               m ! k ! 0 = m ! (k - 1) ! 0 + (gap a + v)))"
proof -
  define z where "z = zeros (length (seq1 a) + 1) (length (seq2 a) + 1)"
  have zl: "map length z = replicate (length (seq1 a) + 1) (length (seq2 a) + 1)"
    by (simp add: z_def zeros_def)
  have zs: "fst (shape z) = length (seq1 a) + 1"
    by (simp add: z_def zeros_def shape_def)
  from assms obtain m1 c1 c2 where
    p1: "init_axis (weights a) (gap a) False (CHR ''-'' # seq1 a)
           [0..<length (seq1 a) + 1] (z, 0) = Inr (m1, c1)"
    and p2: "init_axis (weights a) (gap a) True (CHR ''-'' # seq2 a)
           [0..<snd (shape m1)] (m1, 0) = Inr (m, c2)"
    unfolding init_matrix_def Let_def z_def [symmetric] zs
    by (auto split: sum.splits)
  have l1: "map length m1 = replicate (length (seq1 a) + 1) (length (seq2 a) + 1)"
    using init_axis_shape [OF p1] zl by simp
  have s1: "snd (shape m1) = length (seq2 a) + 1"
  proof (cases m1)
    case Nil
    with l1 show ?thesis by simp
  next
    case (Cons row rest)
    with l1 show ?thesis by (simp add: shape_def)
  qed
  note p2 = p2 [unfolded s1]
  have l2: "map length m = replicate (length (seq1 a) + 1) (length (seq2 a) + 1)"
    using init_axis_shape [OF p2] l1 by simp
  note v1 = init_axis_values [OF p1, simplified]
  note v2 = init_axis_values [OF p2, simplified]
  from v2 obtain v where v: "weights a (CHR ''-'', CHR ''-'') = Some v" "m ! 0 ! 0 = v"
    by auto
  have row: "\<exists>w. weights a (CHR ''-'', seq2 a ! (k - 1)) = Some w \<and>
               m ! 0 ! k = m ! 0 ! (k - 1) + (gap a + w)"
    if "1 \<le> k \<and> k \<le> length (seq2 a)" for k
  proof -
    from that have k: "0 < k \<and> k < Suc (length (seq2 a))" by auto
    then have "(CHR ''-'' # seq2 a) ! k = seq2 a ! (k - 1)" by (cases k) auto
    with v2 k show ?thesis by auto
  qed
  have col: "\<exists>w. weights a (CHR ''-'', seq1 a ! (k - 1)) = Some w \<and>
               m ! k ! 0 = m ! (k - 1) ! 0 + (gap a + w)"
    if "1 \<le> k \<and> k \<le> length (seq1 a)" for k
  proof -
    from that have k: "0 < k \<and> k < Suc (length (seq1 a))" by auto
    then have sk: "(CHR ''-'' # seq1 a) ! k = seq1 a ! (k - 1)" by (cases k) auto
    from v1 k sk obtain w where w: "weights a (CHR ''-'', seq1 a ! (k - 1)) = Some w"
      "m1 ! k ! 0 = m1 ! (k - 1) ! 0 + (gap a + w)" by auto
    have keep: "m ! k ! 0 = m1 ! k ! 0"
      using init_axis_frame [OF p2, of k 0] k by auto
    have "m ! (k - 1) ! 0 = m1 ! (k - 1) ! 0"
    proof (cases "k = 1")
      case True
      from v1 v(1) have "m1 ! 0 ! 0 = v" by auto
      with v(2) True show ?thesis by simp
    next
      case False
      with k show ?thesis using init_axis_frame [OF p2, of "k - 1" 0] by auto
    qed
    with keep w show ?thesis by simp
  qed
  from l2 v row col show ?thesis by blast
qed

subsection \<open>The object built in global mode\<close>

lemma init_matrix_ignores_matrix: "init_matrix (a\<lparr>matrix := x\<rparr>) = init_matrix a"
  by (auto simp: init_matrix_def Let_def split: sum.splits)

lemma init_global:
  assumes "init read_csv s1 s2 ma ga mi w False = Inr a"
  shows "\<not> local a \<and> seq1 a = upper s1 \<and> seq2 a = upper s2 \<and> gap a = ga \<and>
         set_weights read_csv (upper s1) (upper s2) w = Inr (weights a) \<and>
         init_matrix a = Inr (matrix a)"
proof -
  from assms obtain t m where
    t: "set_weights read_csv (upper s1) (upper s2) w = Inr t"
    and m: "init_matrix \<lparr>seq1 = upper s1, seq2 = upper s2, match = ma, gap = ga,
              mismatch = mi, local = False, weights = t, matrix = []\<rparr> = Inr m"
    and a: "a = \<lparr>seq1 = upper s1, seq2 = upper s2, match = ma, gap = ga,
              mismatch = mi, local = False, weights = t, matrix = m\<rparr>"
    by (auto simp: init_def Let_def split: sum.splits)
  have "init_matrix a = Inr m"
    using m init_matrix_ignores_matrix
      [where a = "\<lparr>seq1 = upper s1, seq2 = upper s2, match = ma, gap = ga,
              mismatch = mi, local = False, weights = t, matrix = []\<rparr>" and x = m]
    by (simp add: a)
  with t show ?thesis by (simp add: a)
qed

lemma mat_get_in_shape:
  assumes "map length m = replicate r c" and "i < r" and "j < c"
  shows "mat_get m (int i, int j) = Inr (m ! i ! j)"
proof -
  have l: "length m = r" using assms(1) by (metis length_map length_replicate)
  have "length (m ! i) = map length m ! i" using assms(2) l by simp
  also have "\<dots> = c" using assms(1,2) by simp
  finally show ?thesis using assms(2,3) l by (simp add: mat_get_nat)
qed

text \<open>
  What \<open>init_matrix\<close> builds in global mode, whenever the constructor returns:
  \<^item> the cell \<open>(0, 0)\<close> holds the table entry of the gap symbol against itself, which
    is 0 when no table is loaded;
  \<^item> along row 0, \<open>M[0,k] = M[0,k-1] + gap + sub('-', seq2[k-1])\<close> for \<open>1 \<le> k \<le> len(seq2)\<close>;
  \<^item> along column 0, \<open>M[k,0] = M[k-1,0] + gap + sub('-', seq1[k-1])\<close> for
    \<open>1 \<le> k \<le> len(seq1)\<close>.
\<close>

lemma global_borders:
  assumes "init read_csv s1 s2 ma ga mi w False = Inr a"
  shows "(\<exists>v. weights a (CHR ''-'', CHR ''-'') = Some v \<and> mat_get (matrix a) (0, 0) = Inr v) \<and>
         (w = None \<or> w = Some [] \<longrightarrow> mat_get (matrix a) (0, 0) = Inr 0) \<and>
         (\<forall>k. 1 \<le> k \<and> k \<le> length (seq2 a) \<longrightarrow>
            (\<exists>x y v. mat_get (matrix a) (0, int k) = Inr x \<and>
               mat_get (matrix a) (0, int k - 1) = Inr y \<and>
               weights a (CHR ''-'', seq2 a ! (k - 1)) = Some v \<and> x = y + (gap a + v))) \<and>
         (\<forall>k. 1 \<le> k \<and> k \<le> length (seq1 a) \<longrightarrow>
            (\<exists>x y v. mat_get (matrix a) (int k, 0) = Inr x \<and>
               mat_get (matrix a) (int k - 1, 0) = Inr y \<and>
               weights a (CHR ''-'', seq1 a ! (k - 1)) = Some v \<and> x = y + (gap a + v)))"
proof -
  note i = init_global [OF assms]
  from i have g: "init_matrix a = Inr (matrix a)" and nl: "\<not> local a" by simp_all
  note b = init_matrix_global [OF g nl]
  from b have sh: "map length (matrix a) =
      replicate (length (seq1 a) + 1) (length (seq2 a) + 1)" by blast
  have get: "mat_get (matrix a) (int r, int c) = Inr (matrix a ! r ! c)"
    if "r \<le> length (seq1 a)" "c \<le> length (seq2 a)" for r c
    using that by (intro mat_get_in_shape [OF sh]) simp_all
  have get00: "mat_get (matrix a) (0, 0) = Inr (matrix a ! 0 ! 0)"
    using get [of 0 0] by simp
  from b obtain v where v: "weights a (CHR ''-'', CHR ''-'') = Some v" "matrix a ! 0 ! 0 = v"
    by blast
  have origin: "\<exists>v. weights a (CHR ''-'', CHR ''-'') = Some v \<and>
                    mat_get (matrix a) (0, 0) = Inr v"
    using v get00 by simp
  have none: "mat_get (matrix a) (0, 0) = Inr 0" if "w = None \<or> w = Some []"
  proof -
    from that i have "weights a = zero_frame (upper s1 @ upper s2 @ ''-'')"
      by (auto simp: set_weights_def)
    then have "weights a (CHR ''-'', CHR ''-'') = Some 0" by (simp add: zero_frame_def)
    with v get00 show ?thesis by simp
  qed
  have row: "\<exists>x y v. mat_get (matrix a) (0, int k) = Inr x \<and>
               mat_get (matrix a) (0, int k - 1) = Inr y \<and>
               weights a (CHR ''-'', seq2 a ! (k - 1)) = Some v \<and> x = y + (gap a + v)"
    if k: "1 \<le> k \<and> k \<le> length (seq2 a)" for k
  proof -
    from b k obtain v where "weights a (CHR ''-'', seq2 a ! (k - 1)) = Some v"
      "matrix a ! 0 ! k = matrix a ! 0 ! (k - 1) + (gap a + v)" by blast
    moreover have "mat_get (matrix a) (0, int k) = Inr (matrix a ! 0 ! k)"
      using get [of 0 k] k by simp
    moreover have e: "int (k - 1) = int k - 1" "int 0 = 0" using k by auto
    have "mat_get (matrix a) (int 0, int (k - 1)) = Inr (matrix a ! 0 ! (k - 1))"
      by (rule get) (use k in auto)
    then have "mat_get (matrix a) (0, int k - 1) = Inr (matrix a ! 0 ! (k - 1))"
      by (simp only: e)
    ultimately show ?thesis by blast
  qed
  have col: "\<exists>x y v. mat_get (matrix a) (int k, 0) = Inr x \<and>
               mat_get (matrix a) (int k - 1, 0) = Inr y \<and>
               weights a (CHR ''-'', seq1 a ! (k - 1)) = Some v \<and> x = y + (gap a + v)"
    if k: "1 \<le> k \<and> k \<le> length (seq1 a)" for k
  proof -
    from b k obtain v where "weights a (CHR ''-'', seq1 a ! (k - 1)) = Some v"
      "matrix a ! k ! 0 = matrix a ! (k - 1) ! 0 + (gap a + v)" by blast
    moreover have "mat_get (matrix a) (int k, 0) = Inr (matrix a ! k ! 0)"
      using get [of k 0] k by simp
    moreover have e: "int (k - 1) = int k - 1" "int 0 = 0" using k by auto
    have "mat_get (matrix a) (int (k - 1), int 0) = Inr (matrix a ! (k - 1) ! 0)"
      by (rule get) (use k in auto)
    then have "mat_get (matrix a) (int k - 1, 0) = Inr (matrix a ! (k - 1) ! 0)"
      by (simp only: e)
    ultimately show ?thesis by blast
  qed
  from origin none row col show ?thesis by blast
qed

text \<open>Sequences \<open>A\<close> and \<open>C\<close>, default scalars, no table, global mode, before the fill.\<close>

lemma plain_init:
  "\<not> isl (init no_csv ''A'' ''C'' 1 (- 1) (- 1) None False) \<and>
   seq1 (projr (init no_csv ''A'' ''C'' 1 (- 1) (- 1) None False)) = ''A'' \<and>
   seq2 (projr (init no_csv ''A'' ''C'' 1 (- 1) (- 1) None False)) = ''C'' \<and>
   matrix (projr (init no_csv ''A'' ''C'' 1 (- 1) (- 1) None False)) = [[0, - 1], [- 1, 0]]"
  by code_simp

lemma global_borders_example:
  "\<not> isl (init no_csv ''A'' ''C'' 1 (- 1) (- 1) None False) \<and>
   mat_get (matrix (projr (init no_csv ''A'' ''C'' 1 (- 1) (- 1) None False))) (0, 0) = Inr 0 \<and>
   (\<exists>v. weights (projr (init no_csv ''A'' ''C'' 1 (- 1) (- 1) None False))
           (CHR ''-'', CHR ''C'') = Some v \<and>
        (- 1 :: int) = 0 + (gap (projr (init no_csv ''A'' ''C'' 1 (- 1) (- 1) None False)) + v))"
proof -
  obtain a where a: "init no_csv ''A'' ''C'' 1 (- 1) (- 1) None False = Inr a"
    and p: "projr (init no_csv ''A'' ''C'' 1 (- 1) (- 1) None False) = a"
    using plain_init by (blast elim: filled_obtain)
  from plain_init have s: "seq1 a = ''A''" "seq2 a = ''C''"
    and m: "matrix a = [[0, - 1], [- 1, 0]]"
    by (simp_all add: p)
  note t = global_borders [OF a]
  from t have z: "mat_get (matrix a) (0, 0) = Inr 0" by blast
  have "1 \<le> (1 :: nat) \<and> 1 \<le> length (seq2 a)" by (simp add: s)
  with t have "\<exists>x y v. mat_get (matrix a) (0, int 1) = Inr x \<and>
               mat_get (matrix a) (0, int 1 - 1) = Inr y \<and>
               weights a (CHR ''-'', seq2 a ! (1 - 1)) = Some v \<and> x = y + (gap a + v)"
    by blast
  then have "\<exists>v. weights a (CHR ''-'', CHR ''C'') = Some v \<and> (- 1 :: int) = 0 + (gap a + v)"
    by (simp add: m s mat_get_def py_index_def norm_index_def)
  with z plain_init show ?thesis by (simp add: p)
qed

section \<open>C7: the values along a local walk\<close>

subsection \<open>The neighbour that is taken\<close>

lemma neighbour_loop_taken:
  assumes "neighbour_loop a cur v idx = Inr (Some (index, x, y))"
  shows "index \<in> set idx \<and>
         (\<exists>c1 c2 b. py_index (seq1 a) (fst cur - 1) = Inr c1 \<and>
            py_index (seq2 a) (snd cur - 1) = Inr c2 \<and>
            mat_get (matrix a) index = Inr b \<and>
            (if (fst index + 1, snd index + 1) = cur then
               (\<exists>w. weights a (c1, c2) = Some w \<and>
                  ((v - b = match a + w \<and> c1 = c2) \<or> v - b = mismatch a + w)) \<and>
               x = c1 \<and> y = c2
             else if fst cur - fst index \<noteq> 0 then
               (\<exists>w. weights a (c1, CHR ''-'') = Some w \<and> v - b = gap a + w) \<and>
               x = c1 \<and> y = CHR ''-''
             else
               (\<exists>w. weights a (CHR ''-'', c2) = Some w \<and> v - b = gap a + w) \<and>
               x = CHR ''-'' \<and> y = c2))"
  using assms
proof (induction idx)
  case Nil
  then show ?case by simp
next
  case (Cons i0 rest)
  from Cons.prems obtain c1 c2 b where
    c: "py_index (seq1 a) (fst cur - 1) = Inr c1" "py_index (seq2 a) (snd cur - 1) = Inr c2"
      "mat_get (matrix a) i0 = Inr b"
    by (auto split: sum.splits)
  show ?case
  proof (cases "neighbour_loop a cur v rest = Inr (Some (index, x, y))")
    case True
    from Cons.IH [OF True] show ?thesis by auto
  next
    case False
    with Cons.prems c show ?thesis
      by (auto simp: loc_def split: sum.splits option.splits if_splits)
  qed
qed

text \<open>
  C7 as the code has it. Across each step of a traceback, the score of the cell left
  minus the score of the cell entered is the score the taken move was tested against:
  \<open>match + sub\<close> or \<open>mismatch + sub\<close> on the diagonal, \<open>gap + sub\<close> to the left and
  upwards. So the value falls across a step exactly when that score is positive.
\<close>

theorem C7_step_changes_value_by_move_score:
  assumes "trace_step a c = Inr (v, Some (c', x, y))"
  shows "mat_get (matrix a) c = Inr v \<and>
         (\<exists>v' s. mat_get (matrix a) c' = Inr v' \<and> v - v' = s \<and> (v' < v \<longleftrightarrow> 0 < s) \<and>
            ((c' = (fst c - 1, snd c - 1) \<and>
                (\<exists>w. weights a (x, y) = Some w \<and>
                   (s = match a + w \<and> x = y \<or> s = mismatch a + w)))
             \<or> (c' = (fst c, snd c - 1) \<and> x = CHR ''-'' \<and>
                (\<exists>w. weights a (CHR ''-'', y) = Some w \<and> s = gap a + w))
             \<or> (c' = (fst c - 1, snd c) \<and> y = CHR ''-'' \<and>
                (\<exists>w. weights a (x, CHR ''-'') = Some w \<and> s = gap a + w))))"
proof -
  from assms have g: "mat_get (matrix a) c = Inr v"
    and n: "neighbour_loop a c v (kept_neighbours c) = Inr (Some (c', x, y))"
    by (auto simp: trace_step_def split: sum.splits)
  note t = neighbour_loop_taken [OF n]
  from t have "c' \<in> {(fst c - 1, snd c - 1), (fst c, snd c - 1), (fst c - 1, snd c)}"
    by (auto simp: kept_neighbours_def get_neighbours_def split: if_splits)
  then consider (diag) "c' = (fst c - 1, snd c - 1)" | (left) "c' = (fst c, snd c - 1)"
    | (up) "c' = (fst c - 1, snd c)" by blast
  then have "\<exists>v' s. mat_get (matrix a) c' = Inr v' \<and> v - v' = s \<and> (v' < v \<longleftrightarrow> 0 < s) \<and>
            ((c' = (fst c - 1, snd c - 1) \<and>
                (\<exists>w. weights a (x, y) = Some w \<and>
                   (s = match a + w \<and> x = y \<or> s = mismatch a + w)))
             \<or> (c' = (fst c, snd c - 1) \<and> x = CHR ''-'' \<and>
                (\<exists>w. weights a (CHR ''-'', y) = Some w \<and> s = gap a + w))
             \<or> (c' = (fst c - 1, snd c) \<and> y = CHR ''-'' \<and>
                (\<exists>w. weights a (x, CHR ''-'') = Some w \<and> s = gap a + w)))"
  proof cases
    case diag
    then have "(fst c' + 1, snd c' + 1) = c" by simp
    with t diag show ?thesis by auto
  next
    case left
    then have "(fst c' + 1, snd c' + 1) \<noteq> c" and "fst c - fst c' = 0"
      by (auto simp: prod_eq_iff)
    with t left show ?thesis by auto
  next
    case up
    then have "(fst c' + 1, snd c' + 1) \<noteq> c" and "fst c - fst c' \<noteq> 0"
      by (auto simp: prod_eq_iff)
    with t up show ?thesis by auto
  qed
  with g show ?thesis by blast
qed

text \<open>Sequences \<open>AA\<close> and \<open>ABA\<close>, \<open>match = 3\<close>, \<open>gap = -1\<close>, \<open>mismatch = -3\<close>, no table,
  local mode.\<close>

lemma gapped_local_isr: "\<not> isl (filled no_csv ''AA'' ''ABA'' 3 (- 1) (- 3) None True)"
  by code_simp

lemma gapped_local_matrix:
  "map_sum id matrix (filled no_csv ''AA'' ''ABA'' 3 (- 1) (- 3) None True) =
     Inr [[0, 0, 0, 0], [0, 3, 2, 3], [0, 3, 2, 5]]"
  by code_simp

lemma gapped_local_steps:
  "trace_step (projr (filled no_csv ''AA'' ''ABA'' 3 (- 1) (- 3) None True)) (2, 3) =
     Inr (5, Some ((1, 2), CHR ''A'', CHR ''A''))"
  "trace_step (projr (filled no_csv ''AA'' ''ABA'' 3 (- 1) (- 3) None True)) (1, 2) =
     Inr (2, Some ((1, 1), CHR ''-'', CHR ''B''))"
  "trace_step (projr (filled no_csv ''AA'' ''ABA'' 3 (- 1) (- 3) None True)) (1, 1) =
     Inr (3, Some ((0, 0), CHR ''A'', CHR ''A''))"
  "trace_step (projr (filled no_csv ''AA'' ''ABA'' 3 (- 1) (- 3) None True)) (0, 0) =
     Inr (0, None)"
  by code_simp+

lemma gapped_local_indices: "indices [[0, 0, 0, 0], [0, 3, 2, 3], [0, 3, 2, 5]] = [(2, 3)]"
  by code_simp

lemma gapped_local_gap:
  "gap (projr (filled no_csv ''AA'' ''ABA'' 3 (- 1) (- 3) None True)) = - 1 \<and>
   weights (projr (filled no_csv ''AA'' ''ABA'' 3 (- 1) (- 3) None True))
      (CHR ''-'', CHR ''B'') = Some 0"
  by code_simp

theorem C7_step_changes_value_by_move_score_witness:
  "trace_step (projr (filled no_csv ''AA'' ''ABA'' 3 (- 1) (- 3) None True)) (1, 2) =
     Inr (2, Some ((1, 1), CHR ''-'', CHR ''B'')) \<and>
   mat_get (matrix (projr (filled no_csv ''AA'' ''ABA'' 3 (- 1) (- 3) None True))) (1, 2) =
     Inr 2 \<and>
   mat_get (matrix (projr (filled no_csv ''AA'' ''ABA'' 3 (- 1) (- 3) None True))) (1, 1) =
     Inr 3"
proof -
  let ?a = "projr (filled no_csv ''AA'' ''ABA'' 3 (- 1) (- 3) None True)"
  note t = C7_step_changes_value_by_move_score [OF gapped_local_steps(2)]
  from t have here: "mat_get (matrix ?a) (1, 2) = Inr 2" by blast
  from t obtain v' s where v': "mat_get (matrix ?a) (1, 1) = Inr v'" "2 - v' = s"
    and d: "((1, 1) = (fst (1 :: int, 2 :: int) - 1, snd (1 :: int, 2 :: int) - 1) \<and>
                (\<exists>w. weights ?a (CHR ''-'', CHR ''B'') = Some w \<and>
                   (s = match ?a + w \<and> CHR ''-'' = CHR ''B'' \<or> s = mismatch ?a + w)))
             \<or> ((1, 1) = (fst (1 :: int, 2 :: int), snd (1 :: int, 2 :: int) - 1) \<and>
                CHR ''-'' = CHR ''-'' \<and>
                (\<exists>w. weights ?a (CHR ''-'', CHR ''B'') = Some w \<and> s = gap ?a + w))
             \<or> ((1, 1) = (fst (1 :: int, 2 :: int) - 1, snd (1 :: int, 2 :: int)) \<and>
                CHR ''B'' = CHR ''-'' \<and>
                (\<exists>w. weights ?a (CHR ''B'', CHR ''-'') = Some w \<and> s = gap ?a + w))"
    by blast
  from d have "s = - 1" using gapped_local_gap by auto
  with v' have "mat_get (matrix ?a) (1, 1) = Inr 3" by simp
  with here gapped_local_steps(2) show ?thesis by simp
qed

text \<open>
  C7 as stated fails on this input. The only start is \<open>(2, 3)\<close>, with the score 5; the
  walk goes to \<open>(1, 2)\<close>, score 2, then by a gap step to \<open>(1, 1)\<close>, score 3, and ends
  at the zero cell \<open>(0, 0)\<close>: the scores visited before the zero cell are 5, 2, 3.
\<close>

theorem C7_walk_values_counterexample:
  "run no_csv ''AA'' ''ABA'' 3 (- 1) (- 3) None True True =
     Some (Inr ([[0, 0, 0, 0], [0, 3, 2, 3], [0, 3, 2, 5]], Some [((2, 3), ''A-A'', ''ABA'')])) \<and>
   trace_step (projr (filled no_csv ''AA'' ''ABA'' 3 (- 1) (- 3) None True)) (2, 3) =
     Inr (5, Some ((1, 2), CHR ''A'', CHR ''A'')) \<and>
   trace_step (projr (filled no_csv ''AA'' ''ABA'' 3 (- 1) (- 3) None True)) (1, 2) =
     Inr (2, Some ((1, 1), CHR ''-'', CHR ''B'')) \<and>
   trace_step (projr (filled no_csv ''AA'' ''ABA'' 3 (- 1) (- 3) None True)) (1, 1) =
     Inr (3, Some ((0, 0), CHR ''A'', CHR ''A'')) \<and>
   trace_step (projr (filled no_csv ''AA'' ''ABA'' 3 (- 1) (- 3) None True)) (0, 0) =
     Inr (0, None)"
proof -
  obtain a where a: "filled no_csv ''AA'' ''ABA'' 3 (- 1) (- 3) None True = Inr a"
    and p: "projr (filled no_csv ''AA'' ''ABA'' 3 (- 1) (- 3) None True) = a"
    using gapped_local_isr by (rule filled_obtain)
  have m: "matrix a = [[0, 0, 0, 0], [0, 3, 2, 3], [0, 3, 2, 5]]"
    using gapped_local_matrix by (simp add: a)
  note s = gapped_local_steps [unfolded p]
  have g: "mat_get (matrix a) (2, 3) = Inr 5"
    unfolding m by code_simp
  have w: "local_walk a (5, (2, 3), [], []) = Some (Inr (0, (0, 0), ''A-A'', ''ABA''))"
    apply (subst local_walk.simps)
    apply (simp add: s)
    apply (subst local_walk.simps)
    apply (simp add: s)
    apply (subst local_walk.simps)
    apply (simp add: s)
    apply (subst local_walk.simps)
    apply (simp add: s)
    apply (subst local_walk.simps)
    apply simp
    done
  have "select_local_alignment a = Some (Inr [((2, 3), ''A-A'', ''ABA'')])"
    unfolding select_local_alignment_def m gapped_local_indices
    using g w by (simp add: m)
  then have "run no_csv ''AA'' ''ABA'' 3 (- 1) (- 3) None True True =
     Some (Inr ([[0, 0, 0, 0], [0, 3, 2, 3], [0, 3, 2, 5]], Some [((2, 3), ''A-A'', ''ABA'')]))"
    by (simp add: run_def a m print_alignment_def)
  then show ?thesis using gapped_local_steps by simp
qed

section \<open>What the fill establishes\<close>

subsection \<open>Cells the loops do not write\<close>

lemma align_row_frame:
  assumes "align_row a i js = Inr a'" and "\<forall>j \<in> set js. (r, c) \<noteq> (i, j)"
  shows "matrix a' ! r ! c = matrix a ! r ! c"
  using assms
proof (induction js arbitrary: a)
  case Nil
  then show ?case by simp
next
  case (Cons j js)
  from Cons.prems(1) obtain v m where
    m: "mat_set (matrix a) (int i, int j) v = Inr m"
    and rest: "align_row (a\<lparr>matrix := m\<rparr>) i js = Inr a'"
    by (auto split: sum.splits)
  have "m ! r ! c = matrix a ! r ! c"
    using m Cons.prems(2) by (intro mat_set_other) auto
  moreover have "matrix a' ! r ! c = m ! r ! c"
    using Cons.IH [OF rest] Cons.prems(2) by simp
  ultimately show ?case by simp
qed

lemma align_rows_frame:
  assumes "align_rows a is = Inr a'" and "r \<notin> set is \<or> c = 0"
  shows "matrix a' ! r ! c = matrix a ! r ! c"
  using assms
proof (induction "is" arbitrary: a)
  case Nil
  then show ?case by simp
next
  case (Cons i "is")
  from Cons.prems(1) obtain b where
    row: "align_row a i [1..<length (seq2 a) + 1] = Inr b"
    and rest: "align_rows b is = Inr a'"
    by (auto split: sum.splits)
  have "matrix b ! r ! c = matrix a ! r ! c"
    using row Cons.prems(2) by (intro align_row_frame) auto
  moreover have "matrix a' ! r ! c = matrix b ! r ! c"
    using Cons.IH [OF rest] Cons.prems(2) by auto
  ultimately show ?case by simp
qed

subsection \<open>Cells the loops write\<close>

lemma mat_get_value: "mat_get m (int r, int c) = Inr v \<Longrightarrow> v = m ! r ! c"
  by (auto simp: mat_get_nat split: if_splits)

lemma cell_value:
  assumes "cell a (int (Suc i')) (int (Suc j')) = Inr r"
  shows "\<exists>wd wl wu.
           weights a (seq1 a ! i', seq2 a ! j') = Some wd \<and>
           weights a (seq1 a ! i', CHR ''-'') = Some wl \<and>
           weights a (CHR ''-'', seq2 a ! j') = Some wu \<and>
           r = max (matrix a ! i' ! j' +
                      (if seq1 a ! i' = seq2 a ! j' then match a else mismatch a) + wd)
                 (max (matrix a ! Suc i' ! j' + gap a + wl) (matrix a ! i' ! Suc j' + gap a + wu))"
proof -
  have e [simp]: "int (Suc i') - 1 = int i'" "int (Suc j') - 1 = int j'" by simp_all
  from assms have li: "i' < length (seq1 a)" and lj: "j' < length (seq2 a)"
    by (auto simp: cell_def simp del: of_nat_Suc split: if_splits sum.splits)
  from assms li lj obtain wd wl wu d l u where
    w: "weights a (seq1 a ! i', seq2 a ! j') = Some wd"
       "weights a (seq1 a ! i', CHR ''-'') = Some wl"
       "weights a (CHR ''-'', seq2 a ! j') = Some wu"
    and g: "mat_get (matrix a) (int i', int j') = Inr d"
       "mat_get (matrix a) (int (Suc i'), int j') = Inr l"
       "mat_get (matrix a) (int i', int (Suc j')) = Inr u"
    by (auto simp: cell_def get_neighbours_def loc_def simp del: of_nat_Suc
        split: sum.splits option.splits)
  from cell_Suc [OF li lj g w] assms have
    "r = max (d + (if seq1 a ! i' = seq2 a ! j' then match a else mismatch a) + wd)
           (max (l + gap a + wl) (u + gap a + wu))" by simp
  with w mat_get_value [OF g(1)] mat_get_value [OF g(2)] mat_get_value [OF g(3)]
  show ?thesis by blast
qed

lemma align_row_equation:
  assumes "align_row a i [lo..<hi] = Inr a'" and "1 \<le> i" and "1 \<le> lo"
  shows "\<forall>j. lo \<le> j \<and> j < hi \<longrightarrow> fill_equation a' i j"
  using assms
proof (induction "hi - lo" arbitrary: lo a)
  case 0
  then have "hi \<le> lo" by simp
  then show ?case by (meson leD le_trans)
next
  case (Suc n)
  from Suc.hyps(2) have split: "[lo..<hi] = lo # [Suc lo..<hi]" by (simp add: upt_conv_Cons)
  obtain i' j' where i: "i = Suc i'" and lo: "lo = Suc j'"
    using Suc.prems(2,3) by (cases i; cases lo) auto
  from Suc.prems(1) [unfolded split] obtain r m where
    c: "cell a (int i) (int lo) = Inr r"
    and m: "mat_set (matrix a) (int i, int lo) (check_non_negativity a r) = Inr m"
    and rest: "align_row (a\<lparr>matrix := m\<rparr>) i [Suc lo..<hi] = Inr a'"
    by (auto split: sum.splits)
  note f = align_row_fields [OF rest]
  have later: "matrix a' ! r' ! c' = m ! r' ! c'" if "r' \<noteq> i \<or> c' \<le> lo" for r' c'
    using align_row_frame [OF rest, of r' c'] that by auto
  have here: "matrix a' ! i ! lo = check_non_negativity a r"
    using later [of i lo] mat_set_same [OF m] by simp
  have old: "matrix a' ! r' ! c' = matrix a ! r' ! c'"
    if "r' \<noteq> i \<or> c' < lo" for r' c'
    using later [of r' c'] mat_set_other [OF m, of r' c'] that by auto
  from cell_value [OF c [unfolded i lo]] obtain wd wl wu where
    w: "weights a (seq1 a ! i', seq2 a ! j') = Some wd"
       "weights a (seq1 a ! i', CHR ''-'') = Some wl"
       "weights a (CHR ''-'', seq2 a ! j') = Some wu"
    and r: "r = max (matrix a ! i' ! j' +
                      (if seq1 a ! i' = seq2 a ! j' then match a else mismatch a) + wd)
                 (max (matrix a ! Suc i' ! j' + gap a + wl) (matrix a ! i' ! Suc j' + gap a + wu))"
    by blast
  have ck: "check_non_negativity a' = check_non_negativity a"
    using f by (simp add: check_non_negativity_def fun_eq_iff)
  have first: "fill_equation a' i lo"
    unfolding fill_equation_def
    using w f here r old [of i' j'] old [of i j'] old [of i' lo]
    by (simp add: i lo ck)
  have "\<forall>j. Suc lo \<le> j \<and> j < hi \<longrightarrow> fill_equation a' i j"
  proof (cases "Suc lo < hi")
    case True
    have "n = hi - Suc lo" using Suc.hyps(2) by simp
    from Suc.hyps(1) [OF this rest Suc.prems(2)] show ?thesis by simp
  next
    case False
    then show ?thesis by (meson le_less_trans)
  qed
  with first show ?case by (metis Suc_leI le_neq_implies_less)
qed

lemma fill_equation_cong:
  assumes "fill_equation b i j"
    and "seq1 a' = seq1 b" "seq2 a' = seq2 b" "local a' = local b" "weights a' = weights b"
      "match a' = match b" "gap a' = gap b" "mismatch a' = mismatch b"
    and "\<And>r c. r \<le> i \<Longrightarrow> matrix a' ! r ! c = matrix b ! r ! c"
  shows "fill_equation a' i j"
proof -
  have m: "matrix a' ! i ! j = matrix b ! i ! j"
    "matrix a' ! (i - 1) ! (j - 1) = matrix b ! (i - 1) ! (j - 1)"
    "matrix a' ! i ! (j - 1) = matrix b ! i ! (j - 1)"
    "matrix a' ! (i - 1) ! j = matrix b ! (i - 1) ! j"
    by (simp_all add: assms(9))
  show ?thesis
    using assms(1) unfolding fill_equation_def check_non_negativity_def m assms(2-8) .
qed

lemma align_rows_equation:
  assumes "align_rows a [lo..<hi] = Inr a'" and "1 \<le> lo"
  shows "\<forall>i j. lo \<le> i \<and> i < hi \<and> 1 \<le> j \<and> j \<le> length (seq2 a) \<longrightarrow> fill_equation a' i j"
  using assms
proof (induction "hi - lo" arbitrary: lo a)
  case 0
  then have "hi \<le> lo" by simp
  then show ?case by (meson leD le_trans)
next
  case (Suc n)
  from Suc.hyps(2) have split: "[lo..<hi] = lo # [Suc lo..<hi]" by (simp add: upt_conv_Cons)
  from Suc.prems(1) [unfolded split] obtain b where
    row: "align_row a lo [1..<length (seq2 a) + 1] = Inr b"
    and rest: "align_rows b [Suc lo..<hi] = Inr a'"
    by (auto split: sum.splits)
  note fb = align_row_fields [OF row]
  note fa = align_rows_fields [OF rest]
  have first: "fill_equation a' lo j" if "1 \<le> j \<and> j \<le> length (seq2 a)" for j
  proof (rule fill_equation_cong)
    show "fill_equation b lo j"
      using align_row_equation [OF row Suc.prems(2)] that by simp
    show "\<And>r c. r \<le> lo \<Longrightarrow> matrix a' ! r ! c = matrix b ! r ! c"
      using align_rows_frame [OF rest] by simp
  qed (use fa in simp_all)
  have "\<forall>i j. Suc lo \<le> i \<and> i < hi \<and> 1 \<le> j \<and> j \<le> length (seq2 a) \<longrightarrow> fill_equation a' i j"
  proof (cases "Suc lo < hi")
    case True
    have "n = hi - Suc lo" using Suc.hyps(2) by simp
    from Suc.hyps(1) [OF this rest] fb show ?thesis by simp
  next
    case False
    then show ?thesis by (meson le_less_trans)
  qed
  with first show ?case by (metis Suc_leI le_neq_implies_less)
qed

text \<open>After \<open>align\<close>, every interior cell satisfies the equation, and the cells of row 0
  and column 0 are as the constructor left them.\<close>

lemma align_equation:
  assumes "align a = Inr a'" and "1 \<le> i" "i \<le> length (seq1 a)" "1 \<le> j" "j \<le> length (seq2 a)"
  shows "fill_equation a' i j"
  using align_rows_equation [OF assms(1) [unfolded align_def]] assms(2-5) by simp

lemma align_border:
  assumes "align a = Inr a'" and "r = 0 \<or> c = 0"
  shows "matrix a' ! r ! c = matrix a ! r ! c"
  using assms(2) by (intro align_rows_frame [OF assms(1) [unfolded align_def]]) auto

text \<open>In local mode row 0 and column 0 hold 0 after \<open>align\<close>.\<close>

lemma zeros_nth: "r < R \<Longrightarrow> c < C \<Longrightarrow> zeros R C ! r ! c = 0"
  by (simp add: zeros_def)

lemma local_border_zero:
  assumes "init read_csv s1 s2 ma ga mi w True = Inr a" and "align a = Inr a'"
    and "r = 0 \<or> c = 0" and "r \<le> length (seq1 a')" and "c \<le> length (seq2 a')"
  shows "mat_get (matrix a') (int r, int c) = Inr 0"
proof -
  note i = init_local [OF assms(1)]
  note f = align_rows_fields [OF assms(2) [unfolded align_def]]
  have sh: "map length (matrix a') = replicate (length (seq1 a') + 1) (length (seq2 a') + 1)"
    using f i by (simp add: zeros_def)
  have "matrix a' ! r ! c = matrix a ! r ! c" using assms(2,3) by (rule align_border)
  also have "\<dots> = 0" using i f assms(4,5) by (simp add: zeros_nth)
  finally show ?thesis using mat_get_in_shape [OF sh, of r c] assms(4,5) by simp
qed

section \<open>Runs without a table\<close>

subsection \<open>Construction and fill return\<close>

lemma zero_frame_lookup: "x \<in> set s \<Longrightarrow> y \<in> set s \<Longrightarrow> zero_frame s (x, y) = Some 0"
  by (simp add: zero_frame_def)

lemma shape_rows:
  assumes "map length m = replicate R C"
  shows "length m = R" and "r < R \<Longrightarrow> length (m ! r) = C"
proof -
  show l: "length m = R" using assms by (metis length_map length_replicate)
  assume "r < R"
  then have "length (m ! r) = map length m ! r" using l by simp
  also have "\<dots> = C" using assms \<open>r < R\<close> by simp
  finally show "length (m ! r) = C" .
qed

lemma init_axis_total:
  assumes "\<forall>ax \<in> set axs. ax < length s \<and> (\<exists>w. t (CHR ''-'', s ! ax) = Some w)"
    and "map length m = replicate R C"
    and "if i then 0 < R \<and> (\<forall>ax \<in> set axs. ax < C) else 0 < C \<and> (\<forall>ax \<in> set axs. ax < R)"
  shows "\<exists>m' c'. init_axis t g i s axs (m, c) = Inr (m', c')"
  using assms
proof (induction axs arbitrary: m c)
  case Nil
  then show ?case by simp
next
  case (Cons ax axs)
  from Cons.prems(1) obtain w where l: "ax < length s" and w: "t (CHR ''-'', s ! ax) = Some w"
    by auto
  note sh = shape_rows [OF Cons.prems(2)]
  have "\<exists>m1. mat_set m (if i then (0, int ax) else (int ax, 0)) (c + w) = Inr m1"
  proof (cases i)
    case True
    with Cons.prems(3) have "0 < R" "ax < C" by auto
    then have "mat_set m (int 0, int ax) (c + w) = Inr (m[0 := (m ! 0)[ax := c + w]])"
      unfolding mat_set_nat using sh by simp
    with True show ?thesis by simp
  next
    case False
    with Cons.prems(3) have "0 < C" "ax < R" by auto
    then have "mat_set m (int ax, int 0) (c + w) = Inr (m[ax := (m ! ax)[0 := c + w]])"
      unfolding mat_set_nat using sh by simp
    with False show ?thesis by simp
  qed
  then obtain m1 where
    m1: "mat_set m (if i then (0, int ax) else (int ax, 0)) (c + w) = Inr m1" by blast
  have "map length m1 = replicate R C" using mat_set_shape [OF m1] Cons.prems(2) by simp
  from Cons.IH [OF _ this, of "c + (g + w)"] Cons.prems(1,3)
  obtain m' c' where "init_axis t g i s axs (m1, c + (g + w)) = Inr (m', c')"
    by (auto split: if_splits)
  with l w m1 show ?case by (simp add: loc_def)
qed

lemma init_matrix_shape:
  assumes "init_matrix a = Inr m"
  shows "map length m = replicate (length (seq1 a) + 1) (length (seq2 a) + 1)"
proof (cases "local a")
  case True
  with assms show ?thesis by (auto simp: init_matrix_def zeros_def)
next
  case False
  with init_matrix_global [OF assms] show ?thesis by blast
qed

lemma init_fields:
  assumes "init read_csv s1 s2 ma ga mi w lo = Inr a"
  shows "seq1 a = upper s1 \<and> seq2 a = upper s2 \<and> match a = ma \<and> gap a = ga \<and>
         mismatch a = mi \<and> local a = lo \<and>
         set_weights read_csv (upper s1) (upper s2) w = Inr (weights a) \<and>
         init_matrix a = Inr (matrix a)"
proof -
  from assms obtain t m where
    t: "set_weights read_csv (upper s1) (upper s2) w = Inr t"
    and m: "init_matrix \<lparr>seq1 = upper s1, seq2 = upper s2, match = ma, gap = ga,
              mismatch = mi, local = lo, weights = t, matrix = []\<rparr> = Inr m"
    and a: "a = \<lparr>seq1 = upper s1, seq2 = upper s2, match = ma, gap = ga,
              mismatch = mi, local = lo, weights = t, matrix = m\<rparr>"
    by (auto simp: init_def Let_def split: sum.splits)
  have "init_matrix a = Inr m"
    using m init_matrix_ignores_matrix
      [where a = "\<lparr>seq1 = upper s1, seq2 = upper s2, match = ma, gap = ga,
              mismatch = mi, local = lo, weights = t, matrix = []\<rparr>" and x = m]
    by (simp add: a)
  with t show ?thesis by (simp add: a)
qed

lemma init_plain:
  assumes "init read_csv s1 s2 ma ga mi w lo = Inr a" and "w = None \<or> w = Some []"
  shows "plain_object a"
proof -
  note f = init_fields [OF assms(1)]
  from f assms(2) have "weights a = zero_frame (seq1 a @ seq2 a @ ''-'')"
    by (auto simp: set_weights_def)
  moreover from f have "map length (matrix a) =
      replicate (length (seq1 a) + 1) (length (seq2 a) + 1)"
    by (intro init_matrix_shape) simp
  ultimately show ?thesis by (simp add: plain_object_def)
qed

lemma init_total:
  assumes "w = None \<or> w = Some []"
  shows "\<exists>a. init read_csv s1 s2 ma ga mi w lo = Inr a"
proof -
  define t where "t = zero_frame (upper s1 @ upper s2 @ ''-'')"
  define a0 where "a0 = \<lparr>seq1 = upper s1, seq2 = upper s2, match = ma, gap = ga,
              mismatch = mi, local = lo, weights = t, matrix = []\<rparr>"
  have sw: "set_weights read_csv (upper s1) (upper s2) w = Inr t"
    using assms by (auto simp: set_weights_def t_def)
  have "\<exists>m. init_matrix a0 = Inr m"
  proof (cases lo)
    case True
    then show ?thesis by (simp add: init_matrix_def a0_def)
  next
    case False
    define z where "z = zeros (length (upper s1) + 1) (length (upper s2) + 1)"
    have zl: "map length z = replicate (length (upper s1) + 1) (length (upper s2) + 1)"
      by (simp add: z_def zeros_def)
    have zs: "fst (shape z) = length (upper s1) + 1"
      by (simp add: z_def zeros_def shape_def)
    have look: "\<exists>w. t (CHR ''-'', (CHR ''-'' # s) ! ax) = Some w"
      if "ax < length (CHR ''-'' # s)" "set s \<subseteq> set (upper s1 @ upper s2 @ ''-'')" for s ax
    proof -
      from that have "(CHR ''-'' # s) ! ax \<in> set (upper s1 @ upper s2 @ ''-'')"
        by (cases ax) (auto dest: nth_mem)
      then have "zero_frame (upper s1 @ upper s2 @ ''-'') (CHR ''-'', (CHR ''-'' # s) ! ax) =
          Some 0" by (intro zero_frame_lookup) simp_all
      then show ?thesis unfolding t_def by blast
    qed
    have "\<exists>m1 c1. init_axis t ga False (CHR ''-'' # upper s1)
            [0..<length (upper s1) + 1] (z, 0) = Inr (m1, c1)"
      by (rule init_axis_total [OF _ zl]) (auto intro!: look)
    then obtain m1 c1 where
      p1: "init_axis t ga False (CHR ''-'' # upper s1)
            [0..<length (upper s1) + 1] (z, 0) = Inr (m1, c1)" by blast
    have l1: "map length m1 = replicate (length (upper s1) + 1) (length (upper s2) + 1)"
      using init_axis_shape [OF p1] zl by simp
    have s1: "snd (shape m1) = length (upper s2) + 1"
    proof (cases m1)
      case Nil
      with l1 show ?thesis by simp
    next
      case (Cons row rest)
      with l1 show ?thesis by (simp add: shape_def)
    qed
    have "\<exists>m2 c2. init_axis t ga True (CHR ''-'' # upper s2)
            [0..<length (upper s2) + 1] (m1, 0) = Inr (m2, c2)"
      by (rule init_axis_total [OF _ l1]) (auto intro!: look)
    then obtain m2 c2 where
      p2: "init_axis t ga True (CHR ''-'' # upper s2)
            [0..<length (upper s2) + 1] (m1, 0) = Inr (m2, c2)" by blast
    have fields: "seq1 a0 = upper s1" "seq2 a0 = upper s2" "weights a0 = t" "gap a0 = ga"
      "local a0 = False"
      using False by (simp_all add: a0_def)
    have "init_matrix a0 = Inr m2"
      by (simp only: init_matrix_def Let_def fields z_def [symmetric] zs p1 s1 p2
          if_False sum.case prod.case)
    then show ?thesis by blast
  qed
  then obtain m where m: "init_matrix a0 = Inr m" by blast
  have "init read_csv s1 s2 ma ga mi w lo = Inr (a0\<lparr>matrix := m\<rparr>)"
    by (simp only: init_def Let_def sw a0_def [symmetric] m sum.case)
  then show ?thesis by blast
qed

lemma plain_object_update:
  assumes "plain_object a" and "map length m = map length (matrix a)"
  shows "plain_object (a\<lparr>matrix := m\<rparr>)"
  using assms by (simp add: plain_object_def)

lemma plain_mat_get:
  assumes "plain_object a" and "r \<le> length (seq1 a)" and "c \<le> length (seq2 a)"
  shows "mat_get (matrix a) (int r, int c) = Inr (matrix a ! r ! c)"
  using assms by (intro mat_get_in_shape [where r = "length (seq1 a) + 1"
        and c = "length (seq2 a) + 1"]) (simp_all add: plain_object_def)

lemma plain_lookup:
  assumes "plain_object a" and "x \<in> set (seq1 a) \<union> set (seq2 a) \<union> {CHR ''-''}"
    and "y \<in> set (seq1 a) \<union> set (seq2 a) \<union> {CHR ''-''}"
  shows "weights a (x, y) = Some 0"
proof -
  from assms(1) have "weights a = zero_frame (seq1 a @ seq2 a @ ''-'')"
    by (simp add: plain_object_def)
  with assms(2,3) show ?thesis by (auto intro!: zero_frame_lookup)
qed

lemma cell_total:
  assumes "plain_object a" and "i' < length (seq1 a)" and "j' < length (seq2 a)"
  shows "\<exists>r. cell a (int (Suc i')) (int (Suc j')) = Inr r"
proof -
  have "cell a (int (Suc i')) (int (Suc j')) =
          Inr (max (matrix a ! i' ! j' +
                      (if seq1 a ! i' = seq2 a ! j' then match a else mismatch a) + 0)
                 (max (matrix a ! Suc i' ! j' + gap a + 0) (matrix a ! i' ! Suc j' + gap a + 0)))"
    using assms
    by (intro cell_Suc plain_mat_get plain_lookup) (auto dest: nth_mem)
  then show ?thesis by blast
qed

lemma align_row_total:
  assumes "plain_object a" and "1 \<le> i" "i \<le> length (seq1 a)"
    and "\<forall>j \<in> set js. 1 \<le> j \<and> j \<le> length (seq2 a)"
  shows "\<exists>a'. align_row a i js = Inr a'"
  using assms
proof (induction js arbitrary: a)
  case Nil
  then show ?case by simp
next
  case (Cons j js)
  obtain i' j' where i: "i = Suc i'" and j: "j = Suc j'"
    using Cons.prems(2,4) by (cases i; cases j) auto
  from cell_total [OF Cons.prems(1), of i' j'] Cons.prems(3,4)
  obtain r where r: "cell a (int i) (int j) = Inr r" by (auto simp: i j)
  from Cons.prems(1) have sh: "map length (matrix a) =
      replicate (length (seq1 a) + 1) (length (seq2 a) + 1)" by (simp add: plain_object_def)
  note rows = shape_rows [OF sh]
  have "i < length (matrix a) \<and> j < length (matrix a ! i)"
    using rows(1) rows(2) [of i] Cons.prems(3,4) by simp
  then obtain m where
    m: "mat_set (matrix a) (int i, int j) (check_non_negativity a r) = Inr m"
    by (simp add: mat_set_nat)
  have "plain_object (a\<lparr>matrix := m\<rparr>)"
    using Cons.prems(1) mat_set_shape [OF m] by (rule plain_object_update)
  from Cons.IH [OF this] Cons.prems(2,3,4)
  obtain a' where "align_row (a\<lparr>matrix := m\<rparr>) i js = Inr a'" by auto
  with r m show ?case by simp
qed

lemma align_row_plain:
  assumes "align_row a i js = Inr a'" and "plain_object a"
  shows "plain_object a'"
  using align_row_fields [OF assms(1)] assms(2) by (simp add: plain_object_def)

lemma align_rows_total:
  assumes "plain_object a" and "\<forall>i \<in> set is. 1 \<le> i \<and> i \<le> length (seq1 a)"
  shows "\<exists>a'. align_rows a is = Inr a'"
  using assms
proof (induction "is" arbitrary: a)
  case Nil
  then show ?case by simp
next
  case (Cons i "is")
  have "\<forall>j \<in> set [1..<length (seq2 a) + 1]. 1 \<le> j \<and> j \<le> length (seq2 a)" by auto
  with align_row_total [OF Cons.prems(1), of i "[1..<length (seq2 a) + 1]"] Cons.prems(2)
  obtain b where b: "align_row a i [1..<length (seq2 a) + 1] = Inr b"
    by (metis list.set_intros(1))
  note f = align_row_fields [OF b]
  from Cons.IH [OF align_row_plain [OF b Cons.prems(1)]] Cons.prems(2) f
  obtain a' where "align_rows b is = Inr a'" by auto
  with b show ?case by simp
qed

lemma filled_total:
  assumes "w = None \<or> w = Some []"
  shows "\<exists>a. filled read_csv s1 s2 ma ga mi w lo = Inr a \<and> plain_object a \<and>
              seq1 a = upper s1 \<and> seq2 a = upper s2 \<and> local a = lo"
proof -
  from init_total [OF assms] obtain a0 where
    a0: "init read_csv s1 s2 ma ga mi w lo = Inr a0" by blast
  note p0 = init_plain [OF a0 assms]
  note f0 = init_fields [OF a0]
  have "\<forall>i \<in> set [1..<length (seq1 a0) + 1]. 1 \<le> i \<and> i \<le> length (seq1 a0)" by auto
  from align_rows_total [OF p0 this]
  obtain a where a: "align a0 = Inr a" unfolding align_def by blast
  note f = align_rows_fields [OF a [unfolded align_def]]
  have "plain_object a" using p0 f by (simp add: plain_object_def)
  with a0 a f f0 show ?thesis by (simp add: filled_def)
qed

subsection \<open>The filled matrix\<close>

lemma filled_plain_filled:
  assumes "filled read_csv s1 s2 ma ga mi w lo = Inr a" and "w = None \<or> w = Some []"
  shows "plain_filled a"
proof -
  from assms(1) obtain a0 where a0: "init read_csv s1 s2 ma ga mi w lo = Inr a0"
    and a: "align a0 = Inr a"
    by (auto simp: filled_def split: sum.splits)
  note p0 = init_plain [OF a0 assms(2)]
  note f0 = init_fields [OF a0]
  note f = align_rows_fields [OF a [unfolded align_def]]
  have p: "plain_object a" using p0 f by (simp add: plain_object_def)
  have interior: "fill_equation a i j"
    if "1 \<le> i \<and> i \<le> length (seq1 a) \<and> 1 \<le> j \<and> j \<le> length (seq2 a)" for i j
    using align_equation [OF a, of i j] that f by simp
  have border: "matrix a ! r ! c = matrix a0 ! r ! c" if "r = 0 \<or> c = 0" for r c
    using a that by (rule align_border)
  have loc: "matrix a ! r ! c = 0"
    if "local a" "(r = 0 \<or> c = 0) \<and> r \<le> length (seq1 a) \<and> c \<le> length (seq2 a)" for r c
  proof -
    from that(1) f f0 have "lo" by simp
    with a0 have "init read_csv s1 s2 ma ga mi w True = Inr a0" by simp
    from init_local [OF this]
    have "matrix a0 = zeros (length (upper s1) + 1) (length (upper s2) + 1)" by simp
    with that(2) f f0 border [of r c] show ?thesis by (simp add: zeros_nth)
  qed
  have glob: "(\<forall>k. 1 \<le> k \<and> k \<le> length (seq2 a) \<longrightarrow>
           matrix a ! 0 ! k = matrix a ! 0 ! (k - 1) + gap a) \<and>
        (\<forall>k. 1 \<le> k \<and> k \<le> length (seq1 a) \<longrightarrow>
           matrix a ! k ! 0 = matrix a ! (k - 1) ! 0 + gap a)" if "\<not> local a"
  proof -
    from that f have nl: "\<not> local a0" by simp
    from f0 have im: "init_matrix a0 = Inr (matrix a0)" by simp
    note b = init_matrix_global [OF im nl]
    have row: "matrix a ! 0 ! k = matrix a ! 0 ! (k - 1) + gap a"
      if k: "1 \<le> k \<and> k \<le> length (seq2 a)" for k
    proof -
      from b k f obtain v where v: "weights a0 (CHR ''-'', seq2 a0 ! (k - 1)) = Some v"
        "matrix a0 ! 0 ! k = matrix a0 ! 0 ! (k - 1) + (gap a0 + v)" by auto
      have "seq2 a0 ! (k - 1) \<in> set (seq2 a0)" using k f by (intro nth_mem) auto
      then have "weights a0 (CHR ''-'', seq2 a0 ! (k - 1)) = Some 0"
        by (intro plain_lookup [OF p0]) simp_all
      with v have "v = 0" by simp
      with v(2) border [of 0 k] border [of 0 "k - 1"] f show ?thesis by simp
    qed
    have col: "matrix a ! k ! 0 = matrix a ! (k - 1) ! 0 + gap a"
      if k: "1 \<le> k \<and> k \<le> length (seq1 a)" for k
    proof -
      from b k f obtain v where v: "weights a0 (CHR ''-'', seq1 a0 ! (k - 1)) = Some v"
        "matrix a0 ! k ! 0 = matrix a0 ! (k - 1) ! 0 + (gap a0 + v)" by auto
      have "seq1 a0 ! (k - 1) \<in> set (seq1 a0)" using k f by (intro nth_mem) auto
      then have "weights a0 (CHR ''-'', seq1 a0 ! (k - 1)) = Some 0"
        by (intro plain_lookup [OF p0]) simp_all
      with v have "v = 0" by simp
      with v(2) border [of k 0] border [of "k - 1" 0] f show ?thesis by simp
    qed
    from row col show ?thesis by blast
  qed
  show ?thesis
    unfolding plain_filled_def using p interior loc glob by (cases "local a") auto
qed

text \<open>Without a table the equation of an interior cell has no table terms.\<close>

lemma plain_interior:
  assumes "plain_filled a" and "i' < length (seq1 a)" and "j' < length (seq2 a)"
  shows "matrix a ! Suc i' ! Suc j' =
           check_non_negativity a
             (max (matrix a ! i' ! j' +
                     (if seq1 a ! i' = seq2 a ! j' then match a else mismatch a))
                (max (matrix a ! Suc i' ! j' + gap a) (matrix a ! i' ! Suc j' + gap a)))"
proof -
  from assms have p: "plain_object a" and e: "fill_equation a (Suc i') (Suc j')"
    by (simp_all add: plain_filled_def)
  have "weights a (seq1 a ! i', seq2 a ! j') = Some 0"
    "weights a (seq1 a ! i', CHR ''-'') = Some 0"
    "weights a (CHR ''-'', seq2 a ! j') = Some 0"
    using assms(2,3) by (auto intro!: plain_lookup [OF p] dest: nth_mem)
  with e show ?thesis by (auto simp: fill_equation_def)
qed

subsection \<open>One pass of the traceback body\<close>

lemma py_index_before:
  assumes "xs \<noteq> []" and "i \<le> length xs"
  shows "\<exists>c. py_index xs (int i - 1) = Inr c \<and> c \<in> set xs \<and> (\<forall>i'. i = Suc i' \<longrightarrow> c = xs ! i')"
proof (cases i)
  case 0
  have "nat (int (length xs) - 1) < length xs" using assms(1) by (cases xs) auto
  then have "xs ! nat (int (length xs) - 1) \<in> set xs" by (rule nth_mem)
  with 0 assms(1) show ?thesis
    by (simp add: py_index_def norm_index_def)
next
  case (Suc i')
  have e: "int (Suc i') - 1 = int i'" by simp
  have "i' < length xs" using Suc assms(2) by simp
  then show ?thesis unfolding Suc e by simp
qed

lemma kept_neighbours_cases:
  "kept_neighbours (int (Suc i'), int (Suc j')) =
     [(int i', int j'), (int (Suc i'), int j'), (int i', int (Suc j'))]"
  "kept_neighbours (int 0, int (Suc j')) = [(int 0, int j')]"
  "kept_neighbours (int (Suc i'), int 0) = [(int i', int 0)]"
  "kept_neighbours (int 0, int 0) = []"
  by (simp_all add: kept_neighbours_def get_neighbours_def)

text \<open>Without a table, and when every neighbour in the list can be read, the loop over
  the neighbours either leaves by \<open>break\<close> at one of them or runs to the end, and then
  every one of them has failed its test.\<close>

lemma neighbour_loop_plain:
  assumes "py_index (seq1 a) (fst cur - 1) = Inr c1" and "py_index (seq2 a) (snd cur - 1) = Inr c2"
    and "weights a (c1, c2) = Some 0" and "weights a (c1, CHR ''-'') = Some 0"
    and "weights a (CHR ''-'', c2) = Some 0"
    and "\<forall>index \<in> set idx. \<exists>b. mat_get (matrix a) index = Inr b"
  shows "(\<exists>index x y. neighbour_loop a cur v idx = Inr (Some (index, x, y)) \<and> index \<in> set idx) \<or>
         (neighbour_loop a cur v idx = Inr None \<and>
          (\<forall>index \<in> set idx. \<forall>b. mat_get (matrix a) index = Inr b \<longrightarrow>
             \<not> (if (fst index + 1, snd index + 1) = cur
                then (v - b = match a \<and> c1 = c2) \<or> v - b = mismatch a
                else v - b = gap a)))"
  using assms(6)
  supply neighbour_loop.simps [simp del]
proof (induction idx)
  case Nil
  then show ?case by (simp add: neighbour_loop.simps(1))
next
  case (Cons i0 rest)
  let ?T = "\<lambda>index b. if (fst index + 1, snd index + 1) = cur
                then (v - b = match a \<and> c1 = c2) \<or> v - b = mismatch a
                else v - b = gap a"
  from Cons.prems obtain b where b: "mat_get (matrix a) i0 = Inr b" by auto
  from Cons.IH Cons.prems have IH:
    "(\<exists>index x y. neighbour_loop a cur v rest = Inr (Some (index, x, y)) \<and> index \<in> set rest) \<or>
     (neighbour_loop a cur v rest = Inr None \<and>
      (\<forall>index \<in> set rest. \<forall>b. mat_get (matrix a) index = Inr b \<longrightarrow> \<not> ?T index b))"
    by simp
  have step: "neighbour_loop a cur v (i0 # rest) =
      (if (fst i0 + 1, snd i0 + 1) = cur then
         (if (v - b = match a + 0 \<and> c1 = c2) \<or> v - b = mismatch a + 0
          then Inr (Some (i0, c1, c2)) else neighbour_loop a cur v rest)
       else if fst cur - fst i0 \<noteq> 0 then
         (if v - b = gap a + 0 then Inr (Some (i0, c1, CHR ''-''))
          else neighbour_loop a cur v rest)
       else
         (if v - b = gap a + 0 then Inr (Some (i0, CHR ''-'', c2))
          else neighbour_loop a cur v rest))"
    by (simp only: neighbour_loop.simps assms(1-5) b loc_def sum.case option.case)
  show ?case
  proof (cases "?T i0 b")
    case True
    have "\<exists>x y. neighbour_loop a cur v (i0 # rest) = Inr (Some (i0, x, y))"
    proof (cases "(fst i0 + 1, snd i0 + 1) = cur")
      case diag: True
      with True have "(v - b = match a + 0 \<and> c1 = c2) \<or> v - b = mismatch a + 0" by simp
      with diag have "neighbour_loop a cur v (i0 # rest) = Inr (Some (i0, c1, c2))"
        by (simp only: step simp_thms if_True if_False)
      then show ?thesis by blast
    next
      case side: False
      with True have g: "v - b = gap a + 0" by simp
      show ?thesis
      proof (cases "fst cur - fst i0 \<noteq> 0")
        case True
        with side g have "neighbour_loop a cur v (i0 # rest) = Inr (Some (i0, c1, CHR ''-''))"
          by (simp only: step simp_thms if_True if_False)
        then show ?thesis by blast
      next
        case False
        with side g have "neighbour_loop a cur v (i0 # rest) = Inr (Some (i0, CHR ''-'', c2))"
          by (simp only: step simp_thms if_True if_False)
        then show ?thesis by blast
      qed
    qed
    then obtain x y where "neighbour_loop a cur v (i0 # rest) = Inr (Some (i0, x, y))"
      by blast
    then have "neighbour_loop a cur v (i0 # rest) = Inr (Some (i0, x, y)) \<and>
               i0 \<in> set (i0 # rest)" by simp
    then show ?thesis by blast
  next
    case False
    have eq: "neighbour_loop a cur v (i0 # rest) = neighbour_loop a cur v rest"
    proof (cases "(fst i0 + 1, snd i0 + 1) = cur")
      case diag: True
      with False have "\<not> ((v - b = match a + 0 \<and> c1 = c2) \<or> v - b = mismatch a + 0)"
        by simp
      with diag show ?thesis by (simp only: step simp_thms if_True if_False)
    next
      case side: False
      with \<open>\<not> ?T i0 b\<close> have g: "\<not> v - b = gap a + 0" by simp
      with side show ?thesis by (simp only: step simp_thms if_True if_False if_cancel)
    qed
    from IH show ?thesis
    proof (elim disjE exE conjE)
      fix index x y
      assume "neighbour_loop a cur v rest = Inr (Some (index, x, y))" "index \<in> set rest"
      then have "neighbour_loop a cur v (i0 # rest) = Inr (Some (index, x, y)) \<and>
                 index \<in> set (i0 # rest)" using eq by simp
      then show ?thesis by blast
    next
      assume n: "neighbour_loop a cur v rest = Inr None"
        and all: "\<forall>index \<in> set rest. \<forall>b. mat_get (matrix a) index = Inr b \<longrightarrow> \<not> ?T index b"
      have "neighbour_loop a cur v (i0 # rest) = Inr None" using eq n by simp
      moreover have "\<forall>b'. mat_get (matrix a) i0 = Inr b' \<longrightarrow> \<not> ?T i0 b'"
        using b False by simp
      then have "\<forall>index \<in> set (i0 # rest). \<forall>b. mat_get (matrix a) index = Inr b \<longrightarrow>
                   \<not> ?T index b"
        using all by (simp only: list.set ball_simps)
      ultimately show ?thesis by blast
    qed
  qed
qed

lemma kept_in_range:
  assumes "index \<in> set (kept_neighbours (int i, int j))"
  shows "\<exists>i' j'. index = (int i', int j') \<and> i' \<le> i \<and> j' \<le> j \<and> i' + j' < i + j"
proof -
  from assms consider
    (diag) "index = (int i - 1, int j - 1)" "1 \<le> i" "1 \<le> j"
    | (left) "index = (int i, int j - 1)" "1 \<le> j"
    | (up) "index = (int i - 1, int j)" "1 \<le> i"
    by (auto simp: kept_neighbours_def get_neighbours_def split: if_splits)
  then show ?thesis
  proof cases
    case diag
    then show ?thesis by (intro exI [of _ "i - 1"] exI [of _ "j - 1"]) auto
  next
    case left
    then show ?thesis by (intro exI [of _ i] exI [of _ "j - 1"]) auto
  next
    case up
    then show ?thesis by (intro exI [of _ "i - 1"] exI [of _ j]) auto
  qed
qed

text \<open>One pass at a cell of a filled matrix without a table, for non-empty sequences:
  it raises nothing; if it takes a neighbour, that neighbour is a cell of the matrix
  nearer to the origin; if it takes none, the cell holds 0 (local mode) or is the origin
  (global mode).\<close>

lemma trace_step_plain:
  assumes pf: "plain_filled a" and ne: "seq1 a \<noteq> []" "seq2 a \<noteq> []"
    and r: "i \<le> length (seq1 a)" "j \<le> length (seq2 a)"
  shows "\<exists>r. trace_step a (int i, int j) = Inr (matrix a ! i ! j, r) \<and>
           (case r of
              None \<Rightarrow> (if local a then matrix a ! i ! j = 0 else i = 0 \<and> j = 0)
            | Some (c', x, y) \<Rightarrow>
                \<exists>i' j'. c' = (int i', int j') \<and> i' \<le> i \<and> j' \<le> j \<and> i' + j' < i + j)"
proof -
  let ?cur = "(int i, int j)"
  let ?v = "matrix a ! i ! j"
  from pf have p: "plain_object a" by (simp add: plain_filled_def)
  have g: "mat_get (matrix a) ?cur = Inr ?v" using p r by (rule plain_mat_get)
  from py_index_before [OF ne(1) r(1)] obtain c1 where
    c1: "py_index (seq1 a) (int i - 1) = Inr c1" "c1 \<in> set (seq1 a)"
      "\<And>i'. i = Suc i' \<Longrightarrow> c1 = seq1 a ! i'" by blast
  from py_index_before [OF ne(2) r(2)] obtain c2 where
    c2: "py_index (seq2 a) (int j - 1) = Inr c2" "c2 \<in> set (seq2 a)"
      "\<And>j'. j = Suc j' \<Longrightarrow> c2 = seq2 a ! j'" by blast
  have w: "weights a (c1, c2) = Some 0" "weights a (c1, CHR ''-'') = Some 0"
    "weights a (CHR ''-'', c2) = Some 0"
    using c1(2) c2(2) by (auto intro!: plain_lookup [OF p])
  have G: "\<forall>index \<in> set (kept_neighbours ?cur). \<exists>b. mat_get (matrix a) index = Inr b"
  proof
    fix index assume "index \<in> set (kept_neighbours ?cur)"
    from kept_in_range [OF this] obtain i' j' where
      "index = (int i', int j')" "i' \<le> i" "j' \<le> j" by blast
    with plain_mat_get [OF p, of i' j'] r show "\<exists>b. mat_get (matrix a) index = Inr b" by simp
  qed
  have c1': "py_index (seq1 a) (fst ?cur - 1) = Inr c1"
    and c2': "py_index (seq2 a) (snd ?cur - 1) = Inr c2"
    using c1(1) c2(1) by simp_all
  let ?T = "\<lambda>index b. if (fst index + 1, snd index + 1) = ?cur
                then (?v - b = match a \<and> c1 = c2) \<or> ?v - b = mismatch a
                else ?v - b = gap a"
  from neighbour_loop_plain [OF c1' c2' w G, of ?v]
  consider (taken) index x y where
      "neighbour_loop a ?cur ?v (kept_neighbours ?cur) = Inr (Some (index, x, y))"
      "index \<in> set (kept_neighbours ?cur)"
    | (none) "neighbour_loop a ?cur ?v (kept_neighbours ?cur) = Inr None"
      "\<forall>index \<in> set (kept_neighbours ?cur). \<forall>b. mat_get (matrix a) index = Inr b \<longrightarrow>
         \<not> ?T index b"
    by blast
  then show ?thesis
  proof cases
    case taken
    from kept_in_range [OF taken(2)] taken(1) g show ?thesis
      by (simp add: trace_step_def)
  next
    case none
    have fail: "\<not> ?T (int i', int j') (matrix a ! i' ! j')"
      if "(int i', int j') \<in> set (kept_neighbours ?cur)" "i' \<le> i" "j' \<le> j" for i' j'
      using none(2) that plain_mat_get [OF p, of i' j'] r by auto
    have "if local a then ?v = 0 else i = 0 \<and> j = 0"
    proof (cases i)
      case i0: 0
      show ?thesis
      proof (cases j)
        case 0
        with i0 pf r show ?thesis by (auto simp: plain_filled_def)
      next
        case (Suc j')
        have "(int 0, int j') \<in> set (kept_neighbours (int 0, int (Suc j')))"
          by (simp add: kept_neighbours_def get_neighbours_def)
        from fail [of 0 j'] this i0 Suc
        have f: "matrix a ! 0 ! Suc j' - matrix a ! 0 ! j' \<noteq> gap a" by simp
        show ?thesis
        proof (cases "local a")
          case True
          with pf r i0 show ?thesis by (auto simp: plain_filled_def)
        next
          case False
          with pf r Suc have "matrix a ! 0 ! Suc j' = matrix a ! 0 ! (Suc j' - 1) + gap a"
            by (auto simp: plain_filled_def)
          with f show ?thesis by simp
        qed
      qed
    next
      case iS: (Suc i')
      show ?thesis
      proof (cases j)
        case 0
        have "(int i', int 0) \<in> set (kept_neighbours (int (Suc i'), int 0))"
          by (simp add: kept_neighbours_def get_neighbours_def)
        from fail [of i' 0] this iS 0
        have f: "matrix a ! Suc i' ! 0 - matrix a ! i' ! 0 \<noteq> gap a" by simp
        show ?thesis
        proof (cases "local a")
          case True
          with pf r 0 show ?thesis by (auto simp: plain_filled_def)
        next
          case False
          with pf r iS have "matrix a ! Suc i' ! 0 = matrix a ! (Suc i' - 1) ! 0 + gap a"
            by (auto simp: plain_filled_def)
          with f show ?thesis by simp
        qed
      next
        case (Suc j')
        have m: "(int i', int j') \<in> set (kept_neighbours (int (Suc i'), int (Suc j')))"
          "(int (Suc i'), int j') \<in> set (kept_neighbours (int (Suc i'), int (Suc j')))"
          "(int i', int (Suc j')) \<in> set (kept_neighbours (int (Suc i'), int (Suc j')))"
          by (simp_all add: kept_neighbours_def get_neighbours_def)
        let ?d = "matrix a ! i' ! j'" and ?l = "matrix a ! Suc i' ! j'"
          and ?u = "matrix a ! i' ! Suc j'"
        from fail [of i' j'] fail [of "Suc i'" j'] fail [of i' "Suc j'"] m iS Suc
        have f: "\<not> ((?v - ?d = match a \<and> c1 = c2) \<or> ?v - ?d = mismatch a)"
          "?v - ?l \<noteq> gap a" "?v - ?u \<noteq> gap a"
          by simp_all
        have cs: "c1 = seq1 a ! i'" "c2 = seq2 a ! j'" using c1(3) c2(3) iS Suc by simp_all
        have "i' < length (seq1 a)" "j' < length (seq2 a)" using r iS Suc by simp_all
        from plain_interior [OF pf this]
        have e: "?v = check_non_negativity a
             (max (?d + (if c1 = c2 then match a else mismatch a))
                (max (?l + gap a) (?u + gap a)))"
          by (simp add: iS Suc cs)
        show ?thesis
        proof (cases "local a")
          case True
          with e f show ?thesis
            by (auto simp: check_non_negativity_def max_def split: if_splits)
        next
          case False
          with e f show ?thesis
            by (auto simp: check_non_negativity_def max_def split: if_splits)
        qed
      qed
    qed
    with none(1) g show ?thesis by (simp add: trace_step_def)
  qed
qed

subsection \<open>The walks return\<close>

lemma global_walk_returns:
  assumes pf: "plain_filled a" and gl: "\<not> local a" and ne: "seq1 a \<noteq> []" "seq2 a \<noteq> []"
    and r: "i \<le> length (seq1 a)" "j \<le> length (seq2 a)"
  shows "\<exists>x' y'. global_walk a ((int i, int j), x, y) = Some (Inr ((0, 0), x', y'))"
  using r
proof (induction "i + j" arbitrary: i j x y rule: less_induct)
  case less
  show ?case
  proof (cases "i = 0 \<and> j = 0")
    case True
    then show ?thesis by (subst global_walk.simps) simp
  next
    case False
    then have c: "1 \<le> int i \<or> 1 \<le> int j" by auto
    from trace_step_plain [OF pf ne less.prems] gl False
    obtain i' j' x0 y0 where
      t: "trace_step a (int i, int j) = Inr (matrix a ! i ! j, Some ((int i', int j'), x0, y0))"
      and s: "i' \<le> i" "j' \<le> j" "i' + j' < i + j"
      by (auto split: option.splits)
    from s less.prems have "i' \<le> length (seq1 a)" "j' \<le> length (seq2 a)" by simp_all
    from less.hyps [OF s(3) this] obtain x' y' where
      "global_walk a ((int i', int j'), x @ [x0], y @ [y0]) = Some (Inr ((0, 0), x', y'))"
      by blast
    with t c show ?thesis by (subst global_walk.simps) simp
  qed
qed

lemma local_walk_returns:
  assumes pf: "plain_filled a" and lo: "local a" and ne: "seq1 a \<noteq> []" "seq2 a \<noteq> []"
    and r: "i \<le> length (seq1 a)" "j \<le> length (seq2 a)"
  shows "\<exists>c' x' y'. local_walk a (v, (int i, int j), x, y) = Some (Inr (0, c', x', y'))"
  using r
proof (induction "i + j" arbitrary: i j v x y rule: less_induct)
  case less
  show ?case
  proof (cases "v = 0")
    case True
    then show ?thesis by (simp add: local_walk_zero)
  next
    case False
    from trace_step_plain [OF pf ne less.prems] obtain r where
      t: "trace_step a (int i, int j) = Inr (matrix a ! i ! j, r)"
      and c: "case r of
              None \<Rightarrow> (if local a then matrix a ! i ! j = 0 else i = 0 \<and> j = 0)
            | Some (c', x, y) \<Rightarrow>
                \<exists>i' j'. c' = (int i', int j') \<and> i' \<le> i \<and> j' \<le> j \<and> i' + j' < i + j"
      by blast
    show ?thesis
    proof (cases r)
      case None
      with c lo have z: "matrix a ! i ! j = 0" by simp
      have "local_walk a (v, (int i, int j), x, y) = local_walk a (0, (int i, int j), x, y)"
        using False t None z by (subst local_walk.simps) simp
      then show ?thesis by (simp add: local_walk_zero)
    next
      case (Some q)
      with c obtain i' j' x0 y0 where q: "q = ((int i', int j'), x0, y0)"
        and s: "i' \<le> i" "j' \<le> j" "i' + j' < i + j"
        by (cases q) auto
      from s less.prems have "i' \<le> length (seq1 a)" "j' \<le> length (seq2 a)" by simp_all
      from less.hyps [OF s(3) this] obtain c' x' y' where
        "local_walk a (matrix a ! i ! j, (int i', int j'), x @ [x0], y @ [y0]) =
           Some (Inr (0, c', x', y'))"
        by blast
      with t False Some q show ?thesis by (subst local_walk.simps) simp
    qed
  qed
qed

lemma plain_corner:
  assumes "plain_object a"
  shows "corner (matrix a) = (int (length (seq1 a)), int (length (seq2 a)))"
proof -
  from assms have sh: "map length (matrix a) =
      replicate (length (seq1 a) + 1) (length (seq2 a) + 1)" by (simp add: plain_object_def)
  note rows = shape_rows [OF sh]
  show ?thesis
  proof (cases "matrix a")
    case Nil
    with sh show ?thesis by simp
  next
    case (Cons row rest)
    with rows(1) rows(2) [of 0] show ?thesis by (simp add: corner_def shape_def)
  qed
qed

lemma local_starts_returns:
  assumes "\<And>p. p \<in> set xs \<Longrightarrow>
      \<exists>v. mat_get (matrix a) p = Inr v \<and>
          (\<exists>s. local_walk a (v, p, [], []) = Some (Inr s))"
  shows "\<exists>d'. local_starts a xs d = Some (Inr d')"
  using assms
proof (induction xs arbitrary: d)
  case Nil
  then show ?case by simp
next
  case (Cons start rest)
  from Cons.prems [of start] obtain v s where
    v: "mat_get (matrix a) start = Inr v" and s: "local_walk a (v, start, [], []) = Some (Inr s)"
    by auto
  obtain v' c' al0 al1 where s': "s = (v', c', al0, al1)" by (cases s) auto
  from Cons.IH [of "AList.update start (al0, al1) d"] Cons.prems
  obtain d' where "local_starts a rest (AList.update start (al0, al1) d) = Some (Inr d')"
    by auto
  with v s s' show ?case by simp
qed

subsection \<open>The size of the cells\<close>

text \<open>Without a table a cell \<open>(i, j)\<close> is at most \<open>(i + j) * S\<close> in magnitude when the
  three scalars are at most \<open>S\<close>; under \<open>exact_scores\<close> that is at most \<open>2^51\<close>, so
  that a cell plus a scalar and the difference of two cells stay below \<open>2^53\<close>.\<close>

lemma filled_scalars:
  assumes "filled read_csv s1 s2 ma ga mi w lo = Inr a"
  shows "match a = ma \<and> gap a = ga \<and> mismatch a = mi \<and> local a = lo \<and>
         seq1 a = upper s1 \<and> seq2 a = upper s2"
proof -
  from assms obtain a0 where a0: "init read_csv s1 s2 ma ga mi w lo = Inr a0"
    and a: "align a0 = Inr a"
    by (auto simp: filled_def split: sum.splits)
  from init_fields [OF a0] align_rows_fields [OF a [unfolded align_def]]
  show ?thesis by simp
qed

lemma plain_origin:
  assumes a: "filled read_csv s1 s2 ma ga mi w lo = Inr a" and w: "w = None \<or> w = Some []"
  shows "matrix a ! 0 ! 0 = 0"
proof (cases lo)
  case True
  with filled_scalars [OF a] have "local a" by simp
  with filled_plain_filled [OF a w] show ?thesis by (simp add: plain_filled_def)
next
  case False
  from a obtain a0 where a0: "init read_csv s1 s2 ma ga mi w lo = Inr a0"
    and al: "align a0 = Inr a"
    by (auto simp: filled_def split: sum.splits)
  from a0 False have "init read_csv s1 s2 ma ga mi w False = Inr a0" by simp
  from global_borders [OF this] w have "mat_get (matrix a0) (0, 0) = Inr 0" by blast
  then have "mat_get (matrix a0) (int 0, int 0) = Inr 0" by simp
  then have "0 = matrix a0 ! 0 ! 0" by (rule mat_get_value)
  then have "matrix a0 ! 0 ! 0 = 0" by simp
  moreover have "matrix a ! 0 ! 0 = matrix a0 ! 0 ! 0" using al by (rule align_border) simp
  ultimately show ?thesis by simp
qed

lemma plain_cells_bounded:
  assumes a: "filled read_csv s1 s2 ma ga mi w lo = Inr a" and w: "w = None \<or> w = Some []"
    and S: "\<bar>ma\<bar> \<le> S" "\<bar>ga\<bar> \<le> S" "\<bar>mi\<bar> \<le> S"
    and r: "i \<le> length s1" "j \<le> length s2"
  shows "\<bar>matrix a ! i ! j\<bar> \<le> int (i + j) * S"
  using r
proof (induction "i + j" arbitrary: i j rule: less_induct)
  case less
  note f = filled_scalars [OF a]
  note pf = filled_plain_filled [OF a w]
  have len: "length (seq1 a) = length s1" "length (seq2 a) = length s2"
    using f by (simp_all add: upper_def)
  have S0: "0 \<le> S" using S(1) by simp
  show ?case
  proof (cases i)
    case i0: 0
    show ?thesis
    proof (cases j)
      case 0
      with i0 plain_origin [OF a w] show ?thesis by simp
    next
      case (Suc j')
      have prev: "\<bar>matrix a ! 0 ! j'\<bar> \<le> int (0 + j') * S"
        using less.prems Suc i0 by (intro less.hyps) simp_all
      show ?thesis
      proof (cases "local a")
        case True
        with pf less.prems(2) have "matrix a ! 0 ! j = 0"
          by (simp add: plain_filled_def len)
        with i0 S0 show ?thesis by simp
      next
        case False
        with pf less.prems(2) Suc have "matrix a ! 0 ! j = matrix a ! 0 ! j' + gap a"
          by (simp add: plain_filled_def len)
        moreover have "int (i + j) * S = int (0 + j') * S + S"
          unfolding i0 Suc by (simp add: algebra_simps)
        moreover have "\<bar>gap a\<bar> \<le> S" using S(2) f by simp
        ultimately show ?thesis using prev unfolding i0 by linarith
      qed
    qed
  next
    case (Suc i')
    note i = Suc
    show ?thesis
    proof (cases j)
      case j0: 0
      have prev: "\<bar>matrix a ! i' ! 0\<bar> \<le> int (i' + 0) * S"
        using less.prems i j0 by (intro less.hyps) simp_all
      show ?thesis
      proof (cases "local a")
        case True
        with pf less.prems(1) have "matrix a ! i ! 0 = 0"
          by (simp add: plain_filled_def len)
        with j0 S0 show ?thesis by simp
      next
        case False
        with pf less.prems(1) i have "matrix a ! i ! 0 = matrix a ! i' ! 0 + gap a"
          by (simp add: plain_filled_def len)
        moreover have "int (i + j) * S = int (i' + 0) * S + S"
          unfolding i j0 by (simp add: algebra_simps)
        moreover have "\<bar>gap a\<bar> \<le> S" using S(2) f by simp
        ultimately show ?thesis using prev unfolding j0 by linarith
      qed
    next
      case (Suc j')
      have d: "\<bar>matrix a ! i' ! j'\<bar> \<le> int (i' + j') * S"
        using less.prems i Suc by (intro less.hyps) simp_all
      have l: "\<bar>matrix a ! Suc i' ! j'\<bar> \<le> int (Suc i' + j') * S"
        using less.prems i Suc by (intro less.hyps) simp_all
      have u: "\<bar>matrix a ! i' ! Suc j'\<bar> \<le> int (i' + Suc j') * S"
        using less.prems i Suc by (intro less.hyps) simp_all
      have e: "matrix a ! Suc i' ! Suc j' =
           check_non_negativity a
             (max (matrix a ! i' ! j' +
                     (if seq1 a ! i' = seq2 a ! j' then match a else mismatch a))
                (max (matrix a ! Suc i' ! j' + gap a) (matrix a ! i' ! Suc j' + gap a)))"
        using less.prems i Suc by (intro plain_interior [OF pf]) (simp_all add: len)
      define B where "B = int (i' + j') * S"
      have b: "int (Suc i' + j') * S = B + S" "int (i' + Suc j') * S = B + S"
        "int (Suc i' + Suc j') * S = B + S + S"
        by (simp_all add: B_def algebra_simps)
      have sc: "\<bar>if seq1 a ! i' = seq2 a ! j' then match a else mismatch a\<bar> \<le> S"
        using S f by simp
      have g: "\<bar>gap a\<bar> \<le> S" using S f by simp
      define cd where "cd = matrix a ! i' ! j' +
          (if seq1 a ! i' = seq2 a ! j' then match a else mismatch a)"
      define cl where "cl = matrix a ! Suc i' ! j' + gap a"
      define cu where "cu = matrix a ! i' ! Suc j' + gap a"
      have bd: "\<bar>cd\<bar> \<le> B + S + S" using d sc S0 unfolding cd_def B_def by linarith
      have bl: "\<bar>cl\<bar> \<le> B + S + S" using l g unfolding cl_def b by linarith
      have bu: "\<bar>cu\<bar> \<le> B + S + S" using u g unfolding cu_def b by linarith
      define mm where "mm = max cd (max cl cu)"
      from bd bl bu have bm: "\<bar>mm\<bar> \<le> B + S + S" unfolding mm_def by linarith
      then have "\<bar>max 0 mm\<bar> \<le> B + S + S" by linarith
      with bm have "\<bar>check_non_negativity a mm\<bar> \<le> B + S + S"
        by (cases "local a") (simp_all only: check_non_negativity_def if_True if_False)
      then show ?thesis
        unfolding i Suc e b mm_def cd_def cl_def cu_def .
    qed
  qed
qed

lemma exact_cells_bounded:
  assumes "filled read_csv s1 s2 ma ga mi w lo = Inr a" and "w = None \<or> w = Some []"
    and "exact_scores s1 s2 ma ga mi" and "i \<le> length s1" "j \<le> length s2"
  shows "\<bar>matrix a ! i ! j\<bar> \<le> 2 ^ 51"
proof -
  from assms(3) have S: "\<bar>ma\<bar> \<le> 2 ^ 24" "\<bar>ga\<bar> \<le> 2 ^ 24" "\<bar>mi\<bar> \<le> 2 ^ 24"
    and n: "length s1 + length s2 \<le> 2 ^ 27"
    by (simp_all add: exact_scores_def)
  have "\<bar>matrix a ! i ! j\<bar> \<le> int (i + j) * 2 ^ 24"
    using assms(1,2) S assms(4,5) by (rule plain_cells_bounded)
  moreover have "i + j \<le> 2 ^ 27" using n assms(4,5) by linarith
  then have "int (i + j) \<le> int (2 ^ 27)" by (simp only: of_nat_le_iff)
  then have "int (i + j) \<le> 2 ^ 27" by simp
  then have "int (i + j) * 2 ^ 24 \<le> 2 ^ 27 * (2 ^ 24 :: int)" by (intro mult_right_mono) simp_all
  ultimately show ?thesis by simp
qed

subsection \<open>Runs that return\<close>

text \<open>
  Without a table and with two non-empty sequences, a run returns in either mode:
  construction and fill raise nothing, the global walk ends at \<open>(0, 0)\<close> and every local
  walk ends with \<open>value = 0\<close>. The statement is made for \<open>exact_scores\<close>, where the
  integers of the model are the floats of the source; the proof is one of integer
  arithmetic and does not use that bound.
\<close>

lemma run_returns_without_table:
  assumes "w = None \<or> w = Some []" and "s1 \<noteq> []" and "s2 \<noteq> []"
    and "exact_scores s1 s2 ma ga mi"
  shows "\<exists>m d. run read_csv s1 s2 ma ga mi w al lo = Some (Inr (m, d))"
proof -
  from filled_total [OF assms(1)] obtain a where
    a: "filled read_csv s1 s2 ma ga mi w lo = Inr a" and p: "plain_object a"
    and f: "seq1 a = upper s1" "seq2 a = upper s2" "local a = lo"
    by blast
  note pf = filled_plain_filled [OF a assms(1)]
  have ne: "seq1 a \<noteq> []" "seq2 a \<noteq> []" using f assms(2,3) by (simp_all add: upper_def)
  show ?thesis
  proof (cases al)
    case False
    with a show ?thesis by (simp add: run_def)
  next
    case True
    show ?thesis
    proof (cases lo)
      case False
      with f have gl: "\<not> local a" by simp
      from global_walk_returns [OF pf gl ne, of "length (seq1 a)" "length (seq2 a)" "[]" "[]"]
      obtain x' y' where
        "global_walk a (corner (matrix a), [], []) = Some (Inr ((0, 0), x', y'))"
        by (auto simp: plain_corner [OF p])
      with a True False show ?thesis by (simp add: run_def select_global_alignment_def)
    next
      case lo: True
      with f have l: "local a" by simp
      from p have sh: "map length (matrix a) =
          replicate (length (seq1 a) + 1) (length (seq2 a) + 1)" by (simp add: plain_object_def)
      have "\<exists>v. mat_get (matrix a) q = Inr v \<and>
              (\<exists>s. local_walk a (v, q, [], []) = Some (Inr s))"
        if "q \<in> set (indices (matrix a))" for q
      proof -
        from that obtain i j where q: "q = (int i, int j)"
          and b: "i < length (matrix a)" "j < length (matrix a ! i)"
          by (auto simp: indices_set)
        from b shape_rows [OF sh] have "i \<le> length (seq1 a)" "j \<le> length (seq2 a)"
          by auto
        from local_walk_returns [OF pf l ne this] mat_get_indices [OF that]
        show ?thesis unfolding q by blast
      qed
      from local_starts_returns [of "indices (matrix a)" a "[]", OF this]
      obtain d where "select_local_alignment a = Some (Inr d)"
        by (auto simp: select_local_alignment_def)
      with a True lo show ?thesis by (simp add: run_def)
    qed
  qed
qed

text \<open>
  Under the same conditions the local result is as the specification has it: the method returns a
  dictionary whose keys are, each once, exactly the coordinates of the cells that no
  cell of the matrix exceeds, and the entry of a key is the pair of lists of the walk
  from that key, which ended with \<open>value = 0\<close>.
\<close>

lemma upper_length: "length (upper s) = length s"
  by (simp add: upper_def)

lemma local_result_without_table:
  assumes w: "w = None \<or> w = Some []" and ne: "s1 \<noteq> []" "s2 \<noteq> []"
    and ex: "exact_scores s1 s2 ma ga mi"
    and a: "filled read_csv s1 s2 ma ga mi w True = Inr a"
  shows "\<exists>d. select_local_alignment a = Some (Inr d) \<and> distinct (map fst d) \<and>
           set (map fst d) =
             {(int x, int y) | x y. x \<le> length s1 \<and> y \<le> length s2 \<and>
                (\<forall>x' y'. x' \<le> length s1 \<and> y' \<le> length s2 \<longrightarrow>
                   matrix a ! x' ! y' \<le> matrix a ! x ! y)} \<and>
           (\<forall>(c, al0, al1) \<in> set d.
              \<exists>v cur. mat_get (matrix a) c = Inr v \<and>
                 local_walk a (v, c, [], []) = Some (Inr (0, cur, al0, al1)))"
proof -
  from filled_total [OF w, of read_csv s1 s2 ma ga mi True] a
  have p: "plain_object a" and f: "seq1 a = upper s1" "seq2 a = upper s2" "local a"
    by auto
  note pf = filled_plain_filled [OF a w]
  have nea: "seq1 a \<noteq> []" "seq2 a \<noteq> []" using f ne by (simp_all add: upper_def)
  have len: "length (seq1 a) = length s1" "length (seq2 a) = length s2"
    using f by (simp_all add: upper_length)
  from p have sh: "map length (matrix a) = replicate (length s1 + 1) (length s2 + 1)"
    by (simp add: plain_object_def len)
  note rows = shape_rows [OF sh]
  define mx where "mx = matrix_max (matrix a)"
  have walk: "\<exists>cur x' y'. local_walk a (mx, q, [], []) = Some (Inr (0, cur, x', y'))"
    if "q \<in> set (indices (matrix a))" for q
  proof -
    from that obtain i j where q: "q = (int i, int j)"
      and b: "i < length (matrix a)" "j < length (matrix a ! i)"
      by (auto simp: indices_set)
    from b rows have "i \<le> length (seq1 a)" "j \<le> length (seq2 a)" by (auto simp: len)
    from local_walk_returns [OF pf f(3) nea this] show ?thesis unfolding q by blast
  qed
  have "\<exists>v. mat_get (matrix a) q = Inr v \<and> (\<exists>s. local_walk a (v, q, [], []) = Some (Inr s))"
    if "q \<in> set (indices (matrix a))" for q
    using walk [OF that] mat_get_indices [OF that] unfolding mx_def by blast
  from local_starts_returns [of "indices (matrix a)" a "[]", OF this]
  obtain d where d: "select_local_alignment a = Some (Inr d)"
    by (auto simp: select_local_alignment_def)
  have "\<exists>es. d = [] @ es \<and> map fst es = indices (matrix a) \<and>
          (\<forall>(c, al0, al1) \<in> set es.
              \<exists>v cur. local_walk a (mx, c, [], []) = Some (Inr (v, cur, al0, al1)))"
    using d [unfolded select_local_alignment_def] unfolding mx_def
    by (rule local_starts_entries) (simp_all add: distinct_indices mat_get_indices)
  then have keys: "map fst d = indices (matrix a)"
    and ent: "\<forall>(c, al0, al1) \<in> set d.
              \<exists>v cur. local_walk a (mx, c, [], []) = Some (Inr (v, cur, al0, al1))"
    by auto
  have dist: "distinct (map fst d)" by (simp add: keys distinct_indices)
  have greatest: "matrix a ! x ! y = mx \<longleftrightarrow>
      (\<forall>x' y'. x' \<le> length s1 \<and> y' \<le> length s2 \<longrightarrow> matrix a ! x' ! y' \<le> matrix a ! x ! y)"
    if r: "x \<le> length s1" "y \<le> length s2" for x y
  proof
    assume e: "matrix a ! x ! y = mx"
    show "\<forall>x' y'. x' \<le> length s1 \<and> y' \<le> length s2 \<longrightarrow> matrix a ! x' ! y' \<le> matrix a ! x ! y"
    proof (intro allI impI)
      fix x' y'
      assume "x' \<le> length s1 \<and> y' \<le> length s2"
      then have "x' < length (matrix a)" "y' < length (matrix a ! x')" using rows by simp_all
      then show "matrix a ! x' ! y' \<le> matrix a ! x ! y"
        unfolding e mx_def by (rule matrix_max_greatest(1))
    qed
  next
    assume g: "\<forall>x' y'. x' \<le> length s1 \<and> y' \<le> length s2 \<longrightarrow>
                 matrix a ! x' ! y' \<le> matrix a ! x ! y"
    have b: "x < length (matrix a)" "y < length (matrix a ! x)" using r rows by simp_all
    from matrix_max_greatest(2) [OF b] obtain x' y' where
      m: "x' < length (matrix a)" "y' < length (matrix a ! x')" "matrix a ! x' ! y' = mx"
      unfolding mx_def by blast
    from m(1,2) rows have "x' \<le> length s1 \<and> y' \<le> length s2" by simp
    with g m(3) have "mx \<le> matrix a ! x ! y" by auto
    moreover have "matrix a ! x ! y \<le> mx" unfolding mx_def using b by (rule matrix_max_greatest(1))
    ultimately show "matrix a ! x ! y = mx" by simp
  qed
  have set_eq: "set (map fst d) =
             {(int x, int y) | x y. x \<le> length s1 \<and> y \<le> length s2 \<and>
                (\<forall>x' y'. x' \<le> length s1 \<and> y' \<le> length s2 \<longrightarrow>
                   matrix a ! x' ! y' \<le> matrix a ! x ! y)}"
  proof -
    have "set (indices (matrix a)) =
        {(int x, int y) | x y. x \<le> length s1 \<and> y \<le> length s2 \<and> matrix a ! x ! y = mx}"
      unfolding indices_set mx_def using rows by (auto simp: less_Suc_eq_le)
    also have "\<dots> = {(int x, int y) | x y. x \<le> length s1 \<and> y \<le> length s2 \<and>
                (\<forall>x' y'. x' \<le> length s1 \<and> y' \<le> length s2 \<longrightarrow>
                   matrix a ! x' ! y' \<le> matrix a ! x ! y)}"
      using greatest by blast
    finally show ?thesis by (simp only: keys)
  qed
  have paths: "\<forall>(c, al0, al1) \<in> set d.
              \<exists>v cur. mat_get (matrix a) c = Inr v \<and>
                 local_walk a (v, c, [], []) = Some (Inr (0, cur, al0, al1))"
  proof (intro ballI, clarify)
    fix c al0 al1
    assume e: "(c, al0, al1) \<in> set d"
    then have "c \<in> set (map fst d)" by force
    then have q: "c \<in> set (indices (matrix a))" by (simp only: keys)
    from ent e obtain v cur where
      "local_walk a (mx, c, [], []) = Some (Inr (v, cur, al0, al1))" by blast
    with walk [OF q] have "local_walk a (mx, c, [], []) = Some (Inr (0, cur, al0, al1))"
      by auto
    with mat_get_indices [OF q]
    show "\<exists>v cur. mat_get (matrix a) c = Inr v \<and>
                 local_walk a (v, c, [], []) = Some (Inr (0, cur, al0, al1))"
      unfolding mx_def by blast
  qed
  from d dist set_eq paths show ?thesis by blast
qed

end
